theory Spec2Isabelle
  imports Main "HOL-Library.Sublist"
begin

section \<open>GNS3 Manager: a shallow embedding of \<^verbatim>\<open>gns3_manager.py\<close>\<close>

text \<open>
  The development follows the class \<^verbatim>\<open>GNS3Manager\<close>. Python text is modelled as
  \<^typ>\<open>string\<close>, a character standing for the code point of the same number; the
  library functions the program calls on text (\<^verbatim>\<open>strip\<close>, \<^verbatim>\<open>lower\<close>,
  \<^verbatim>\<open>int\<close>, \<^verbatim>\<open>replace\<close>) are written out for code points below 256. Values that
  \<^verbatim>\<open>json.load\<close> produces are the datatype \<open>pyval\<close>; a dictionary is an association
  list in insertion order. Every exception the source can raise is a value of \<open>exn\<close>.
\<close>

subsection \<open>Values, exceptions, outcomes\<close>

datatype pyval =
    VNone
  | VBool bool
  | VInt int
  | VStr string
  | VList "pyval list"
  | VDict "(string \<times> pyval) list"

datatype exn =
    ValueError
  | EOFError
  | AttributeError
  | TypeError
  | KeyError
  | JSONDecodeError
  | SystemExit nat

text \<open>
  \<open>Unmodelled\<close> marks the places where the program goes on but the model does not follow
  it: floating-point numbers, code points from 256 on, and the textual form of a list or
  dictionary inside an f-string.
\<close>

datatype 'a outcome = Returns 'a | Raises exn | Unmodelled

subsection \<open>Text\<close>

text \<open>\<^verbatim>\<open>str.isspace\<close> on one code point below 256.\<close>

definition is_space :: "char \<Rightarrow> bool" where
  "is_space c = ((of_char c :: nat) \<in> {9, 10, 11, 12, 13, 28, 29, 30, 31, 32, 133, 160})"

definition py_strip :: "string \<Rightarrow> string" where
  "py_strip s = rev (dropWhile is_space (rev (dropWhile is_space s)))"

text \<open>\<^verbatim>\<open>str.lower\<close>: the letters A to Z and the upper-case letters of Latin-1.\<close>

definition lower_char :: "char \<Rightarrow> char" where
  "lower_char c =
     (let n = (of_char c :: nat)
      in if (65 \<le> n \<and> n \<le> 90) \<or> (192 \<le> n \<and> n \<le> 222 \<and> n \<noteq> 215)
         then char_of (n + 32) else c)"

definition py_lower :: "string \<Rightarrow> string" where
  "py_lower s = map lower_char s"

definition is_digit :: "char \<Rightarrow> bool" where
  "is_digit c = (48 \<le> (of_char c :: nat) \<and> (of_char c :: nat) \<le> 57)"

definition digit_val :: "char \<Rightarrow> nat" where
  "digit_val c = of_char c - 48"

definition digit_char :: "nat \<Rightarrow> char" where
  "digit_char d = char_of (48 + d)"

text \<open>
  The digits of \<^verbatim>\<open>int(s)\<close>: one or more digits, single underscores allowed between
  two digits. The flag says whether the character before was a digit.
\<close>

fun parse_digits :: "bool \<Rightarrow> nat \<Rightarrow> string \<Rightarrow> nat option" where
  "parse_digits p acc [] = (if p then Some acc else None)"
| "parse_digits p acc (c # cs) =
     (if is_digit c then parse_digits True (10 * acc + digit_val c) cs
      else if c = CHR ''_'' \<and> p then parse_digits False acc cs
      else None)"

text \<open>
  \<^verbatim>\<open>int(s)\<close> in base ten: white space around, an optional sign, the digits;
  \<open>None\<close> is the \<^verbatim>\<open>ValueError\<close>. The bound that newer interpreters put on the number
  of digits (4300 unless configured, a \<^verbatim>\<open>ValueError\<close> beyond it) is left out.
\<close>

definition py_int :: "string \<Rightarrow> int option" where
  "py_int s =
     (case py_strip s of
        [] \<Rightarrow> None
      | c # cs \<Rightarrow>
          if c = CHR ''-'' then map_option (\<lambda>n. - int n) (parse_digits False 0 cs)
          else if c = CHR ''+'' then map_option int (parse_digits False 0 cs)
          else map_option int (parse_digits False 0 (c # cs)))"

text \<open>\<^verbatim>\<open>str(n)\<close> of an integer.\<close>

function digits_of :: "nat \<Rightarrow> string" where
  "digits_of n =
     (if n < 10 then [digit_char n] else digits_of (n div 10) @ [digit_char (n mod 10)])"
  by pat_completeness auto
termination
  by (relation "measure id") auto

declare digits_of.simps [simp del]

definition py_str_int :: "int \<Rightarrow> string" where
  "py_str_int i = (if i < 0 then CHR ''-'' # digits_of (nat (- i)) else digits_of (nat i))"

text \<open>
  \<^verbatim>\<open>s.replace(old, new)\<close>: the occurrences of \<open>old\<close> are found from the left and do
  not overlap; an empty \<open>old\<close> matches before every character and at the end.
\<close>

function replace :: "string \<Rightarrow> string \<Rightarrow> string \<Rightarrow> string" where
  "replace old new [] = (if old = [] then new else [])"
| "replace old new (c # cs) =
     (if old = [] then new @ c # replace old new cs
      else if prefix old (c # cs) then new @ replace old new (drop (length old) (c # cs))
      else c # replace old new cs)"
  by pat_completeness auto
termination
  by (relation "measure (\<lambda>(old, new, s). length s)") auto

subsection \<open>Dictionaries\<close>

text \<open>\<^verbatim>\<open>d[k] = v\<close>: a present key keeps its place, a new key goes to the end.\<close>

fun dict_set :: "(string \<times> pyval) list \<Rightarrow> string \<Rightarrow> pyval \<Rightarrow> (string \<times> pyval) list" where
  "dict_set [] k v = [(k, v)]"
| "dict_set ((k', v') # kvs) k v =
     (if k' = k then (k, v) # kvs else (k', v') # dict_set kvs k v)"

text \<open>\<^verbatim>\<open>x.get(k, default)\<close>; only a dictionary has the method.\<close>

definition py_get :: "pyval \<Rightarrow> string \<Rightarrow> pyval \<Rightarrow> pyval outcome" where
  "py_get x k d =
     (case x of
        VDict kvs \<Rightarrow> Returns (case map_of kvs k of None \<Rightarrow> d | Some v \<Rightarrow> v)
      | _ \<Rightarrow> Raises AttributeError)"

text \<open>Truth value of a value under \<^verbatim>\<open>if\<close> and \<^verbatim>\<open>not\<close>.\<close>

fun py_truthy :: "pyval \<Rightarrow> bool" where
  "py_truthy VNone = False"
| "py_truthy (VBool b) = b"
| "py_truthy (VInt i) = (i \<noteq> 0)"
| "py_truthy (VStr s) = (s \<noteq> [])"
| "py_truthy (VList xs) = (xs \<noteq> [])"
| "py_truthy (VDict kvs) = (kvs \<noteq> [])"

text \<open>What a \<^verbatim>\<open>for\<close> loop over the value yields.\<close>

fun py_iter :: "pyval \<Rightarrow> pyval list outcome" where
  "py_iter (VList xs) = Returns xs"
| "py_iter (VStr s) = Returns (map (\<lambda>c. VStr [c]) s)"
| "py_iter (VDict kvs) = Returns (map (\<lambda>kv. VStr (fst kv)) kvs)"
| "py_iter _ = Raises TypeError"

fun py_len :: "pyval \<Rightarrow> nat" where
  "py_len (VList xs) = length xs"
| "py_len (VStr s) = length s"
| "py_len (VDict kvs) = length kvs"
| "py_len _ = 0"

text \<open>
  \<^verbatim>\<open>x[i]\<close> for an integer \<open>i\<close> with \<open>0 \<le> i < len(x)\<close>, the only way the program
  indexes. A dictionary loaded from JSON has text keys only, so an integer is never a key.
\<close>

fun py_index :: "pyval \<Rightarrow> nat \<Rightarrow> pyval outcome" where
  "py_index (VList xs) i = Returns (xs ! i)"
| "py_index (VStr s) i = Returns (VStr [s ! i])"
| "py_index (VDict kvs) i = Raises KeyError"
| "py_index _ i = Raises TypeError"

subsection \<open>The JSON text of a value: \<^verbatim>\<open>json.dump(obj, f, indent=2)\<close>\<close>

abbreviation DQ :: char where "DQ \<equiv> CHR 0x22"
abbreviation BSL :: char where "BSL \<equiv> CHR 0x5C"
abbreviation NL :: char where "NL \<equiv> CHR 0x0A"
abbreviation CR :: char where "CR \<equiv> CHR 0x0D"
abbreviation TAB :: char where "TAB \<equiv> CHR 0x09"
abbreviation BSP :: char where "BSP \<equiv> CHR 0x08"
abbreviation FF :: char where "FF \<equiv> CHR 0x0C"

definition hex_digit :: "nat \<Rightarrow> char" where
  "hex_digit n = (if n < 10 then char_of (48 + n) else char_of (87 + n))"

definition hex_val :: "char \<Rightarrow> nat option" where
  "hex_val c =
     (let n = (of_char c :: nat)
      in if 48 \<le> n \<and> n \<le> 57 then Some (n - 48)
         else if 97 \<le> n \<and> n \<le> 102 then Some (n - 87)
         else if 65 \<le> n \<and> n \<le> 70 then Some (n - 55)
         else None)"

text \<open>
  One character of a string under \<^verbatim>\<open>ensure_ascii\<close>: the printable ASCII characters
  stand for themselves, the others are escaped.
\<close>

definition esc_char :: "char \<Rightarrow> string" where
  "esc_char c =
     (if c = DQ then [BSL, DQ]
      else if c = BSL then [BSL, BSL]
      else if c = NL then [BSL, CHR ''n'']
      else if c = CR then [BSL, CHR ''r'']
      else if c = TAB then [BSL, CHR ''t'']
      else if c = BSP then [BSL, CHR ''b'']
      else if c = FF then [BSL, CHR ''f'']
      else if 32 \<le> (of_char c :: nat) \<and> (of_char c :: nat) \<le> 126 then [c]
      else [BSL, CHR ''u'', CHR ''0'', CHR ''0'',
            hex_digit ((of_char c :: nat) div 16), hex_digit ((of_char c :: nat) mod 16)])"

definition encode_str :: "string \<Rightarrow> string" where
  "encode_str s = DQ # concat (map esc_char s) @ [DQ]"

definition newline_indent :: "nat \<Rightarrow> string" where
  "newline_indent lvl = NL # replicate (2 * lvl) CHR '' ''"

fun enc :: "nat \<Rightarrow> pyval \<Rightarrow> string"
  and enc_items :: "nat \<Rightarrow> pyval list \<Rightarrow> string"
  and enc_pairs :: "nat \<Rightarrow> (string \<times> pyval) list \<Rightarrow> string" where
  "enc lvl VNone = ''null''"
| "enc lvl (VBool b) = (if b then ''true'' else ''false'')"
| "enc lvl (VInt i) = py_str_int i"
| "enc lvl (VStr s) = encode_str s"
| "enc lvl (VList xs) =
     (if xs = [] then ''[]''
      else ''['' @ newline_indent (Suc lvl) @ enc_items (Suc lvl) xs @ newline_indent lvl @ '']'')"
| "enc lvl (VDict kvs) =
     (if kvs = [] then ''{}''
      else ''{'' @ newline_indent (Suc lvl) @ enc_pairs (Suc lvl) kvs @ newline_indent lvl @ ''}'')"
| "enc_items lvl [] = []"
| "enc_items lvl (x # xs) =
     enc lvl x @ (if xs = [] then [] else '','' @ newline_indent lvl @ enc_items lvl xs)"
| "enc_pairs lvl [] = []"
| "enc_pairs lvl (kv # kvs) =
     encode_str (fst kv) @ '': '' @ enc lvl (snd kv)
       @ (if kvs = [] then [] else '','' @ newline_indent lvl @ enc_pairs lvl kvs)"

definition json_dumps :: "pyval \<Rightarrow> string" where
  "json_dumps v = enc 0 v"

subsection \<open>Reading JSON text: \<^verbatim>\<open>json.load\<close>\<close>

fun bind :: "'a outcome \<Rightarrow> ('a \<Rightarrow> 'b outcome) \<Rightarrow> 'b outcome" where
  "bind (Returns x) f = f x"
| "bind (Raises e) f = Raises e"
| "bind Unmodelled f = Unmodelled"

definition is_ws :: "char \<Rightarrow> bool" where
  "is_ws c = (c = CHR '' '' \<or> c = TAB \<or> c = NL \<or> c = CR)"

definition skip_ws :: "string \<Rightarrow> string" where
  "skip_ws s = dropWhile is_ws s"

definition unescape :: "char \<Rightarrow> char option" where
  "unescape e =
     (if e = DQ then Some DQ
      else if e = BSL then Some BSL
      else if e = CHR ''/'' then Some CHR ''/''
      else if e = CHR ''b'' then Some BSP
      else if e = CHR ''f'' then Some FF
      else if e = CHR ''n'' then Some NL
      else if e = CHR ''r'' then Some CR
      else if e = CHR ''t'' then Some TAB
      else None)"

definition cons_out :: "char \<Rightarrow> (string \<times> string) outcome \<Rightarrow> (string \<times> string) outcome" where
  "cons_out c r = bind r (\<lambda>p. Returns (c # fst p, snd p))"

text \<open>
  The text of a string after its opening quote, up to the closing quote: the string and
  the text behind it. A \<^verbatim>\<open>\uXXXX\<close> escape of a code point from 256 on is not followed.
\<close>

fun scanstring :: "string \<Rightarrow> (string \<times> string) outcome" where
  "scanstring [] = Raises JSONDecodeError"
| "scanstring (c # cs) =
     (if c = DQ then Returns ([], cs)
      else if c = BSL then
        (case cs of
           [] \<Rightarrow> Raises JSONDecodeError
         | e # r \<Rightarrow>
             if e = CHR ''u'' then
               (case r of
                  h1 # h2 # h3 # h4 # r' \<Rightarrow>
                    (case (hex_val h1, hex_val h2, hex_val h3, hex_val h4) of
                       (Some x1, Some x2, Some x3, Some x4) \<Rightarrow>
                         if ((x1 * 16 + x2) * 16 + x3) * 16 + x4 < 256
                         then cons_out (char_of (((x1 * 16 + x2) * 16 + x3) * 16 + x4))
                                (scanstring r')
                         else Unmodelled
                     | _ \<Rightarrow> Raises JSONDecodeError)
                | _ \<Rightarrow> Raises JSONDecodeError)
             else
               (case unescape e of
                  Some ch \<Rightarrow> cons_out ch (scanstring r)
                | None \<Rightarrow> Raises JSONDecodeError))
      else if (of_char c :: nat) < 32 then Raises JSONDecodeError
      else cons_out c (scanstring cs))"

definition digits_val :: "string \<Rightarrow> nat" where
  "digits_val ds = foldl (\<lambda>a c. 10 * a + digit_val c) 0 ds"

text \<open>Whether a fraction or an exponent follows the integer part: the number is a float.\<close>

definition is_float_tail :: "string \<Rightarrow> bool" where
  "is_float_tail r =
     (case r of
        c # d # t \<Rightarrow>
          (c = CHR ''.'' \<and> is_digit d)
          \<or> ((c = CHR ''e'' \<or> c = CHR ''E'')
              \<and> (is_digit d
                  \<or> ((d = CHR ''+'' \<or> d = CHR ''-'')
                      \<and> (case t of [] \<Rightarrow> False | x # _ \<Rightarrow> is_digit x))))
      | _ \<Rightarrow> False)"

text \<open>A number: an optional minus, then 0 or a digit string that does not start with 0.\<close>

definition match_number :: "string \<Rightarrow> (pyval \<times> string) outcome" where
  "match_number s =
     (let neg = (s \<noteq> [] \<and> hd s = CHR ''-'');
          r = (if neg then tl s else s)
      in case r of
           [] \<Rightarrow> Raises JSONDecodeError
         | c # cs \<Rightarrow>
             if \<not> is_digit c then Raises JSONDecodeError
             else
               let ds = (if c = CHR ''0'' then [c] else takeWhile is_digit r);
                   rest = drop (length ds) r
               in if is_float_tail rest then Unmodelled
                  else Returns (VInt (if neg then - int (digits_val ds) else int (digits_val ds)),
                                rest))"

text \<open>The dictionary built from the pairs of an object, in the order of the text.\<close>

definition py_dict :: "(string \<times> pyval) list \<Rightarrow> (string \<times> pyval) list" where
  "py_dict kvs = foldl (\<lambda>d kv. dict_set d (fst kv) (snd kv)) [] kvs"

text \<open>
  The recursive descent of the decoder. The first argument bounds the number of nested
  calls, and \<open>Unmodelled\<close> is the result when it is used up; \<open>json_loads\<close> starts with
  twice the length of the text, which is more than the text of any value needs (lemma
  \<open>weight_le_length\<close> below). The interpreter's own limit on the depth of nesting is
  left out.
\<close>

fun parse_value :: "nat \<Rightarrow> string \<Rightarrow> (pyval \<times> string) outcome"
  and parse_array :: "nat \<Rightarrow> string \<Rightarrow> (pyval list \<times> string) outcome"
  and parse_object :: "nat \<Rightarrow> string \<Rightarrow> ((string \<times> pyval) list \<times> string) outcome" where
  "parse_value 0 s = Unmodelled"
| "parse_value (Suc n) s =
     (case s of
        [] \<Rightarrow> Raises JSONDecodeError
      | c # cs \<Rightarrow>
          if c = DQ then bind (scanstring cs) (\<lambda>p. Returns (VStr (fst p), snd p))
          else if c = CHR ''{'' then
            (case skip_ws cs of
               [] \<Rightarrow> Raises JSONDecodeError
             | d # ds \<Rightarrow>
                 if d = CHR ''}'' then Returns (VDict [], ds)
                 else bind (parse_object n (d # ds))
                        (\<lambda>p. Returns (VDict (py_dict (fst p)), snd p)))
          else if c = CHR ''['' then
            (case skip_ws cs of
               [] \<Rightarrow> Raises JSONDecodeError
             | d # ds \<Rightarrow>
                 if d = CHR '']'' then Returns (VList [], ds)
                 else bind (parse_array n (d # ds)) (\<lambda>p. Returns (VList (fst p), snd p)))
          else if prefix ''null'' s then Returns (VNone, drop 4 s)
          else if prefix ''true'' s then Returns (VBool True, drop 4 s)
          else if prefix ''false'' s then Returns (VBool False, drop 5 s)
          else if prefix ''NaN'' s \<or> prefix ''Infinity'' s \<or> prefix ''-Infinity'' s
            then Unmodelled
          else match_number s)"
| "parse_array 0 s = Unmodelled"
| "parse_array (Suc n) s =
     bind (parse_value n s) (\<lambda>p.
       case skip_ws (snd p) of
         [] \<Rightarrow> Raises JSONDecodeError
       | d # ds \<Rightarrow>
           if d = CHR '']'' then Returns ([fst p], ds)
           else if d = CHR '','' then
             bind (parse_array n (skip_ws ds)) (\<lambda>q. Returns (fst p # fst q, snd q))
           else Raises JSONDecodeError)"
| "parse_object 0 s = Unmodelled"
| "parse_object (Suc n) s =
     (case s of
        [] \<Rightarrow> Raises JSONDecodeError
      | c # cs \<Rightarrow>
          if c \<noteq> DQ then Raises JSONDecodeError
          else bind (scanstring cs) (\<lambda>k.
            case skip_ws (snd k) of
              [] \<Rightarrow> Raises JSONDecodeError
            | d # ds \<Rightarrow>
                if d \<noteq> CHR '':'' then Raises JSONDecodeError
                else bind (parse_value n (skip_ws ds)) (\<lambda>p.
                  case skip_ws (snd p) of
                    [] \<Rightarrow> Raises JSONDecodeError
                  | e # es \<Rightarrow>
                      if e = CHR ''}'' then Returns ([(fst k, fst p)], es)
                      else if e = CHR '','' then
                        bind (parse_object n (skip_ws es))
                          (\<lambda>q. Returns ((fst k, fst p) # fst q, snd q))
                      else Raises JSONDecodeError)))"

text \<open>\<^verbatim>\<open>json.loads\<close>: one value, white space around it, nothing else.\<close>

definition json_loads :: "string \<Rightarrow> pyval outcome" where
  "json_loads s =
     (let t = skip_ws s
      in bind (parse_value (2 * length t + 2) t)
           (\<lambda>p. if skip_ws (snd p) = [] then Returns (fst p) else Raises JSONDecodeError))"

subsection \<open>The manager and the files it reads and writes\<close>

text \<open>
  The fields of \<^verbatim>\<open>GNS3Manager\<close>, together with the files: a path is its text, a file
  has text as content, a path that is not bound does not exist. Failures of the file
  system other than a missing file are not part of the model.
\<close>

record manager =
  config_path :: string
  config :: pyval
  compose_file :: string
  template_file :: string
  files :: "string \<rightharpoonup> string"

text \<open>\<^verbatim>\<open>load_config\<close>: a missing file is \<^verbatim>\<open>sys.exit(1)\<close>.\<close>

definition load_config :: "string \<Rightarrow> (string \<rightharpoonup> string) \<Rightarrow> pyval outcome" where
  "load_config path fs =
     (case fs path of
        None \<Rightarrow> Raises (SystemExit 1)
      | Some text \<Rightarrow> json_loads text)"

text \<open>\<^verbatim>\<open>__init__\<close>\<close>

definition init :: "string \<Rightarrow> (string \<rightharpoonup> string) \<Rightarrow> manager outcome" where
  "init path fs =
     bind (load_config path fs) (\<lambda>c.
       Returns \<lparr>config_path = path, config = c,
                compose_file = ''docker-compose.yml'',
                template_file = ''docker-compose.template.yml'',
                files = fs\<rparr>)"

text \<open>\<^verbatim>\<open>save_config\<close>: the file is created or overwritten.\<close>

definition save_config :: "manager \<Rightarrow> manager" where
  "save_config m = m\<lparr>files := (files m)(config_path m \<mapsto> json_dumps (config m))\<rparr>"

definition get_defaults :: "manager \<Rightarrow> pyval outcome" where
  "get_defaults m = py_get (config m) ''defaults'' (VDict [])"

definition get_available_versions :: "manager \<Rightarrow> pyval outcome" where
  "get_available_versions m = py_get (config m) ''available_versions'' (VDict [])"

subsection \<open>\<^verbatim>\<open>select_version\<close>\<close>

text \<open>
  What arrives at \<^verbatim>\<open>input()\<close>: a line, or the interrupt of the operator. The end of
  the list is the end of the input, where \<^verbatim>\<open>input()\<close> raises \<^verbatim>\<open>EOFError\<close>.
\<close>

datatype input = Line string | Interrupt

text \<open>What the function shows, without the wording.\<close>

datatype shown =
    NoVersions
  | Listing nat
  | Prompt
  | Selected
  | InvalidChoice
  | InvalidInput
  | Cancelled

text \<open>
  The \<^verbatim>\<open>while True\<close> loop: the result, the input left over and what was shown.
  It is a recursion on the input, one line for each turn of the loop.
\<close>

fun select_loop :: "pyval \<Rightarrow> input list \<Rightarrow> pyval outcome \<times> input list \<times> shown list" where
  "select_loop versions [] = (Raises EOFError, [], [Prompt])"
| "select_loop versions (Interrupt # rest) = (Returns VNone, rest, [Prompt, Cancelled])"
| "select_loop versions (Line l # rest) =
     (let choice = py_strip l
      in if py_lower choice = ''q'' then (Returns VNone, rest, [Prompt])
         else
           (case py_int choice of
              None \<Rightarrow>
                (case select_loop versions rest of
                   (r, rest', out) \<Rightarrow> (r, rest', Prompt # InvalidInput # out))
            | Some n \<Rightarrow>
                if 0 \<le> n - 1 \<and> n - 1 < int (py_len versions)
                then (case py_index versions (nat (n - 1)) of
                        Returns v \<Rightarrow> (Returns v, rest, [Prompt, Selected])
                      | Raises e \<Rightarrow> (Raises e, rest, [Prompt])
                      | Unmodelled \<Rightarrow> (Unmodelled, rest, [Prompt]))
                else
                  (case select_loop versions rest of
                     (r, rest', out) \<Rightarrow> (r, rest', Prompt # InvalidChoice # out))))"

definition select_version ::
    "manager \<Rightarrow> string \<Rightarrow> input list \<Rightarrow> pyval outcome \<times> input list \<times> shown list" where
  "select_version m component ins =
     (case get_available_versions m of
        Raises e \<Rightarrow> (Raises e, ins, [])
      | Unmodelled \<Rightarrow> (Unmodelled, ins, [])
      | Returns available \<Rightarrow>
          (case py_get available component (VList []) of
             Raises e \<Rightarrow> (Raises e, ins, [])
           | Unmodelled \<Rightarrow> (Unmodelled, ins, [])
           | Returns versions \<Rightarrow>
               if \<not> py_truthy versions then (Returns VNone, ins, [NoVersions])
               else
                 (case py_iter versions of
                    Raises e \<Rightarrow> (Raises e, ins, [])
                  | Unmodelled \<Rightarrow> (Unmodelled, ins, [])
                  | Returns items \<Rightarrow>
                      (case select_loop versions ins of
                         (r, rest, out) \<Rightarrow> (r, rest, Listing (length items) # out)))))"

subsection \<open>\<^verbatim>\<open>update_default\<close>\<close>

text \<open>
  The two assignments raise \<^verbatim>\<open>TypeError\<close> unless the configuration is a dictionary
  and its \<^verbatim>\<open>defaults\<close> entry, when there is one, is a dictionary too; nothing has
  been changed when they raise.
\<close>

definition update_default :: "manager \<Rightarrow> string \<Rightarrow> pyval \<Rightarrow> unit outcome \<times> manager" where
  "update_default m component version =
     (case config m of
        VDict kvs \<Rightarrow>
          (let kvs' = (if map_of kvs ''defaults'' = None
                       then dict_set kvs ''defaults'' (VDict []) else kvs);
               key = component @ ''_version''
           in case map_of kvs' ''defaults'' of
                Some (VDict d) \<Rightarrow>
                  (Returns (),
                   save_config (m\<lparr>config := VDict (dict_set kvs' ''defaults''
                                                    (VDict (dict_set d key version)))\<rparr>))
              | _ \<Rightarrow> (Raises TypeError, m))
      | _ \<Rightarrow> (Raises TypeError, m))"

subsection \<open>\<^verbatim>\<open>generate_compose_file\<close>\<close>

definition qemu_placeholder :: string where
  "qemu_placeholder = ''${QEMU_VERSION}''"

definition gns3_placeholder :: string where
  "gns3_placeholder = ''${GNS3_SERVER_VERSION}''"

text \<open>The two versions the program works with, each with its fallback.\<close>

definition default_versions :: "manager \<Rightarrow> (pyval \<times> pyval) outcome" where
  "default_versions m =
     bind (get_defaults m) (\<lambda>defaults.
     bind (py_get defaults ''qemu_version'' (VStr ''4.2.1'')) (\<lambda>qemu_version.
     bind (py_get defaults ''gns3_server_version'' (VStr ''2.2.40'')) (\<lambda>gns3_version.
       Returns (qemu_version, gns3_version))))"

text \<open>The two calls of \<^verbatim>\<open>replace\<close>, one after the other.\<close>

definition render :: "string \<Rightarrow> string \<Rightarrow> string \<Rightarrow> string" where
  "render qemu_version gns3_version content =
     replace gns3_placeholder gns3_version (replace qemu_placeholder qemu_version content)"

text \<open>
  \<^verbatim>\<open>replace\<close> raises \<^verbatim>\<open>TypeError\<close> for a version that is not text; this is before
  the output is opened.
\<close>

definition generate_compose_file :: "manager \<Rightarrow> bool outcome \<times> manager" where
  "generate_compose_file m =
     (case default_versions m of
        Raises e \<Rightarrow> (Raises e, m)
      | Unmodelled \<Rightarrow> (Unmodelled, m)
      | Returns (qemu_version, gns3_version) \<Rightarrow>
          (case files m (template_file m) of
             None \<Rightarrow> (Returns False, m)
           | Some content \<Rightarrow>
               (case (qemu_version, gns3_version) of
                  (VStr q, VStr g) \<Rightarrow>
                    (Returns True,
                     m\<lparr>files := (files m)(compose_file m \<mapsto> render q g content)\<rparr>)
                | _ \<Rightarrow> (Raises TypeError, m))))"

subsection \<open>\<^verbatim>\<open>build_image\<close>\<close>

text \<open>A value inside an f-string. The text of a list or a dictionary is not modelled.\<close>

fun py_format :: "pyval \<Rightarrow> string outcome" where
  "py_format (VStr s) = Returns s"
| "py_format VNone = Returns ''None''"
| "py_format (VBool b) = Returns (if b then ''True'' else ''False'')"
| "py_format (VInt i) = Returns (py_str_int i)"
| "py_format _ = Unmodelled"

text \<open>The image name and the command line handed to \<^verbatim>\<open>subprocess.run\<close>.\<close>

definition image_name :: "string \<Rightarrow> string \<Rightarrow> string" where
  "image_name qemu_version gns3_version =
     ''gns3-qemu:'' @ qemu_version @ ''-server-'' @ gns3_version"

definition build_cmd :: "string \<Rightarrow> string \<Rightarrow> string list" where
  "build_cmd qemu_version gns3_version =
     [''docker'', ''build'',
      ''--build-arg'', ''QEMU_VERSION='' @ qemu_version,
      ''--build-arg'', ''GNS3_SERVER_VERSION='' @ gns3_version,
      ''-t'', image_name qemu_version gns3_version,
      ''.'']"

text \<open>
  How \<^verbatim>\<open>subprocess.run(cmd, check=True)\<close> ends: the command is an external program,
  so its result is a parameter of the model. The three ways are the ones the source
  handles; an interrupt while the command runs is left out.
\<close>

datatype run_result = Success | CalledProcessError | FileNotFoundError

definition build_image :: "(string list \<Rightarrow> run_result) \<Rightarrow> manager \<Rightarrow> (string list \<times> bool) outcome" where
  "build_image runner m =
     bind (default_versions m) (\<lambda>vs.
     bind (py_format (fst vs)) (\<lambda>q.
     bind (py_format (snd vs)) (\<lambda>g.
       Returns (build_cmd q g,
                (case runner (build_cmd q g) of
                   Success \<Rightarrow> True
                 | CalledProcessError \<Rightarrow> False
                 | FileNotFoundError \<Rightarrow> False)))))"

subsection \<open>\<^verbatim>\<open>run\<close>: the two branches that select a version\<close>

text \<open>
  \<^verbatim>\<open>version = self.select_version(c)\<close>, then \<^verbatim>\<open>if version: self.update_default(c, version)\<close>.
\<close>

definition run_select ::
    "manager \<Rightarrow> string \<Rightarrow> input list \<Rightarrow> unit outcome \<times> manager \<times> input list \<times> shown list" where
  "run_select m component ins =
     (case select_version m component ins of
        (Returns version, rest, out) \<Rightarrow>
          if py_truthy version
          then (case update_default m component version of (r, m') \<Rightarrow> (r, m', rest, out))
          else (Returns (), m, rest, out)
      | (Raises e, rest, out) \<Rightarrow> (Raises e, m, rest, out)
      | (Unmodelled, rest, out) \<Rightarrow> (Unmodelled, m, rest, out))"

subsection \<open>The vocabulary of the properties\<close>

text \<open>A line that cancels the selection, as the source tests it.\<close>

definition is_cancel :: "string \<Rightarrow> bool" where
  "is_cancel l = (py_lower (py_strip l) = ''q'')"

text \<open>
  An input after which the selection among \<open>n\<close> versions asks again: a line that does not
  cancel and is not the text of an integer, or is an integer outside 1 to \<open>n\<close>.
\<close>

fun invalid_input :: "nat \<Rightarrow> input \<Rightarrow> bool" where
  "invalid_input n Interrupt = False"
| "invalid_input n (Line l) =
     (\<not> is_cancel l \<and>
      (case py_int (py_strip l) of None \<Rightarrow> True | Some i \<Rightarrow> \<not> (1 \<le> i \<and> i \<le> int n)))"

text \<open>An input that ends the selection without a version.\<close>

fun cancels :: "input \<Rightarrow> bool" where
  "cancels Interrupt = True"
| "cancels (Line l) = is_cancel l"

text \<open>
  The shape of a Configuration: a dictionary whose \<^verbatim>\<open>defaults\<close> entry, when there is
  one, is a dictionary.
\<close>

fun has_defaults_mapping :: "pyval \<Rightarrow> bool" where
  "has_defaults_mapping (VDict kvs) =
     (case map_of kvs ''defaults'' of
        None \<Rightarrow> True
      | Some (VDict d) \<Rightarrow> True
      | Some _ \<Rightarrow> False)"
| "has_defaults_mapping _ = False"

text \<open>
  A Python dictionary holds a key once. The association lists that stand for
  dictionaries have this property when no key is repeated, at any depth.
\<close>

fun keys_once :: "pyval \<Rightarrow> bool" where
  "keys_once (VList xs) = (\<forall>x\<in>set xs. keys_once x)"
| "keys_once (VDict kvs) = (distinct (map fst kvs) \<and> (\<forall>kv\<in>set kvs. keys_once (snd kv)))"
| "keys_once _ = True"

text \<open>
  The text with both placeholders replaced at once, in one pass from the left: what is
  put in is not looked at again.
\<close>

function substitute_both :: "string \<Rightarrow> string \<Rightarrow> string \<Rightarrow> string" where
  "substitute_both q g [] = []"
| "substitute_both q g (c # cs) =
     (if prefix qemu_placeholder (c # cs)
        then q @ substitute_both q g (drop (length qemu_placeholder) (c # cs))
      else if prefix gns3_placeholder (c # cs)
        then g @ substitute_both q g (drop (length gns3_placeholder) (c # cs))
      else c # substitute_both q g cs)"
  by pat_completeness auto
termination
  by (relation "measure (\<lambda>(q, g, s). length s)")
     (auto simp: qemu_placeholder_def gns3_placeholder_def)

subsection \<open>Notions for the round trip through JSON text\<close>

text \<open>What may stand behind a value in the text that \<open>enc\<close> writes: nothing, a comma or a new line.\<close>

definition delimited :: "string \<Rightarrow> bool" where
  "delimited r = (case r of [] \<Rightarrow> True | c # _ \<Rightarrow> c = CHR '','' \<or> c = NL)"

text \<open>How many nested calls the decoder needs for the text of a value.\<close>

fun weight :: "pyval \<Rightarrow> nat"
  and weight_items :: "pyval list \<Rightarrow> nat"
  and weight_pairs :: "(string \<times> pyval) list \<Rightarrow> nat" where
  "weight (VList xs) = Suc (weight_items xs)"
| "weight (VDict kvs) = Suc (weight_pairs kvs)"
| "weight VNone = 1"
| "weight (VBool b) = 1"
| "weight (VInt i) = 1"
| "weight (VStr s) = 1"
| "weight_items [] = 0"
| "weight_items (x # xs) = Suc (max (weight x) (weight_items xs))"
| "weight_pairs [] = 0"
| "weight_pairs (kv # kvs) = Suc (max (weight (snd kv)) (weight_pairs kvs))"

text \<open>A text that begins like a value: not with white space or a closing bracket.\<close>

definition opens_value :: "string \<Rightarrow> bool" where
  "opens_value s = (case s of [] \<Rightarrow> False | c # _ \<Rightarrow> \<not> is_ws c \<and> c \<noteq> CHR '']'' \<and> c \<noteq> CHR ''}'')"

subsection \<open>A configuration to try the functions on\<close>

definition example_config :: pyval where
  "example_config =
     VDict [(''defaults'', VDict [(''gns3_server_version'', VStr ''2.2.40'')]),
            (''available_versions'', VDict [(''qemu'', VList [VStr ''a'', VStr ''b'', VStr ''c''])])]"

definition example_manager :: manager where
  "example_manager =
     \<lparr>config_path = ''config.json'', config = example_config,
      compose_file = ''docker-compose.yml'',
      template_file = ''docker-compose.template.yml'',
      files = [''docker-compose.template.yml'' \<mapsto> ''X=${QEMU_VERSION} Y=${B}'',
               ''docker-compose.yml'' \<mapsto> ''old'']\<rparr>"

definition example_no_template :: manager where
  "example_no_template = example_manager\<lparr>files := [''docker-compose.yml'' \<mapsto> ''old'']\<rparr>"

definition example_no_defaults :: manager where
  "example_no_defaults = example_manager\<lparr>config := VDict []\<rparr>"

definition example_one :: manager where
  "example_one = example_manager\<lparr>config := VDict [(''defaults'', VDict [(''qemu_version'', VStr ''1'')])]\<rparr>"

text \<open>A configuration file as it stands on disk, and the value it loads as.\<close>

definition example_text :: string where
  "example_text = ''{\"defaults\": {\"qemu_version\": \"4.2.1\"}, \"available_versions\": {\"qemu\": [\"4.2.1\", \"5.0\"]}}''"

definition example_loaded :: pyval where
  "example_loaded =
     VDict [(''defaults'', VDict [(''qemu_version'', VStr ''4.2.1'')]),
            (''available_versions'', VDict [(''qemu'', VList [VStr ''4.2.1'', VStr ''5.0''])])]"

section \<open>Properties\<close>

subsection \<open>Digits and white space\<close>

lemma of_char_digit_char: "d < 10 \<Longrightarrow> (of_char (digit_char d) :: nat) = 48 + d"
  by (simp add: digit_char_def)

lemma is_digit_digit_char: "d < 10 \<Longrightarrow> is_digit (digit_char d)"
  by (simp add: is_digit_def of_char_digit_char)

lemma digit_val_digit_char: "d < 10 \<Longrightarrow> digit_val (digit_char d) = d"
  by (simp add: digit_val_def of_char_digit_char)

lemma digits_of_digits: "\<forall>c\<in>set (digits_of n). is_digit c"
proof (induction n rule: digits_of.induct)
  case (1 n)
  show ?case
  proof (cases "n < 10")
    case True
    then show ?thesis by (subst digits_of.simps) (simp add: is_digit_digit_char)
  next
    case False
    with 1 show ?thesis
      by (subst digits_of.simps) (simp add: is_digit_digit_char)
  qed
qed

lemma digits_of_nonempty: "digits_of n \<noteq> []"
  by (subst digits_of.simps) simp

lemma digits_val_snoc: "digits_val (ds @ [c]) = 10 * digits_val ds + digit_val c"
  by (simp add: digits_val_def)

lemma digits_val_digits_of: "digits_val (digits_of n) = n"
proof (induction n rule: digits_of.induct)
  case (1 n)
  show ?case
  proof (cases "n < 10")
    case True
    then show ?thesis
      by (subst digits_of.simps) (simp add: digits_val_def digit_val_digit_char)
  next
    case False
    with 1 have "digits_val (digits_of (n div 10)) = n div 10" by simp
    with False show ?thesis
      by (subst digits_of.simps) (simp add: digits_val_snoc digit_val_digit_char)
  qed
qed

lemma parse_digits_all:
  "\<forall>c\<in>set ds. is_digit c \<Longrightarrow>
   parse_digits True acc ds = Some (foldl (\<lambda>a c. 10 * a + digit_val c) acc ds)"
  by (induction ds arbitrary: acc) simp_all

lemma parse_digits_nonempty:
  assumes "\<forall>c\<in>set ds. is_digit c" and "ds \<noteq> []"
  shows "parse_digits p 0 ds = Some (digits_val ds)"
proof -
  from assms obtain c cs where ds: "ds = c # cs" by (cases ds) auto
  with assms show ?thesis
    by (simp add: parse_digits_all digits_val_def)
qed

lemma is_digit_not_space: "is_digit c \<Longrightarrow> \<not> is_space c"
  by (auto simp: is_digit_def is_space_def)

lemma dropWhile_hd: "s = [] \<or> \<not> P (hd s) \<Longrightarrow> dropWhile P s = s"
  by (cases s) auto

lemma py_strip_unspaced:
  assumes "s \<noteq> []" "\<not> is_space (hd s)" "\<not> is_space (last s)"
  shows "py_strip s = s"
proof -
  have "dropWhile is_space s = s" using assms by (simp add: dropWhile_hd)
  moreover have "dropWhile is_space (rev s) = rev s"
    using assms by (intro dropWhile_hd) (simp add: hd_rev)
  ultimately show ?thesis by (simp add: py_strip_def)
qed

lemma py_strip_digits:
  assumes "\<forall>c\<in>set ds. is_digit c"
  shows "py_strip ds = ds"
proof (cases "ds = []")
  case True
  then show ?thesis by (simp add: py_strip_def)
next
  case False
  then have "hd ds \<in> set ds" "last ds \<in> set ds" by simp_all
  with assms False show ?thesis
    by (intro py_strip_unspaced) (auto dest: is_digit_not_space)
qed

lemma lower_char_digit: "is_digit c \<Longrightarrow> lower_char c = c"
  by (auto simp: is_digit_def lower_char_def Let_def)

lemma py_lower_digits: "\<forall>c\<in>set ds. is_digit c \<Longrightarrow> py_lower ds = ds"
  by (simp add: py_lower_def lower_char_digit map_idI)

lemma py_int_digits_of: "py_int (digits_of k) = Some (int k)"
proof -
  let ?ds = "digits_of k"
  have dig: "\<forall>c\<in>set ?ds. is_digit c" by (rule digits_of_digits)
  obtain c cs where ds: "?ds = c # cs" using digits_of_nonempty [of k] by (cases ?ds) auto
  with dig have "is_digit c" by (metis list.set_intros(1))
  then have c: "c \<noteq> CHR ''-''" "c \<noteq> CHR ''+''" by (auto simp: is_digit_def)
  have "parse_digits False 0 ?ds = Some k"
    using parse_digits_nonempty [OF dig digits_of_nonempty] by (simp add: digits_val_digits_of)
  with c ds show ?thesis
    using py_strip_digits [OF dig] by (simp add: py_int_def)
qed

lemma prefix_hd: "prefix xs ys \<Longrightarrow> xs \<noteq> [] \<Longrightarrow> hd xs = hd ys \<and> ys \<noteq> []"
  by (cases xs) (auto simp: prefix_def)

lemma py_strip_idem: "py_strip (py_strip s) = py_strip s"
proof -
  let ?t = "dropWhile is_space s"
  let ?u = "dropWhile is_space (rev ?t)"
  have "suffix ?u (rev ?t)" by (rule suffix_dropWhile)
  then have pre: "prefix (rev ?u) ?t" by (simp add: suffix_to_prefix)
  have "rev ?u = [] \<or> \<not> is_space (hd (rev ?u))"
  proof (cases "rev ?u = []")
    case True then show ?thesis by simp
  next
    case False
    with pre have "hd (rev ?u) = hd ?t" "?t \<noteq> []" using prefix_hd by blast+
    moreover have "\<not> is_space (hd ?t)" using \<open>?t \<noteq> []\<close> by (rule hd_dropWhile)
    ultimately show ?thesis by simp
  qed
  then have "dropWhile is_space (rev ?u) = rev ?u" by (rule dropWhile_hd)
  then show ?thesis by (simp add: py_strip_def)
qed

lemma py_int_strip: "py_int (py_strip s) = py_int s"
  by (simp add: py_int_def py_strip_idem)

subsection \<open>Selecting a version\<close>

lemma is_cancel_digits: "\<forall>c\<in>set ds. is_digit c \<Longrightarrow> \<not> is_cancel ds"
proof
  assume dig: "\<forall>c\<in>set ds. is_digit c" and "is_cancel ds"
  then have "ds = ''q''" by (simp add: is_cancel_def py_strip_digits py_lower_digits)
  with dig show False by (simp add: is_digit_def)
qed

lemma select_loop_invalid:
  assumes "\<forall>e\<in>set bad. invalid_input (py_len versions) e"
  shows "\<exists>pre. select_loop versions (bad @ ins) =
           (fst (select_loop versions ins), fst (snd (select_loop versions ins)),
            pre @ snd (snd (select_loop versions ins)))
         \<and> count_list pre Prompt = length bad"
  using assms
proof (induction bad)
  case Nil
  show ?case by (intro exI [of _ "[]"]) simp
next
  case (Cons e bad)
  then obtain pre where pre:
    "select_loop versions (bad @ ins) =
       (fst (select_loop versions ins), fst (snd (select_loop versions ins)),
        pre @ snd (snd (select_loop versions ins)))"
    "count_list pre Prompt = length bad"
    by auto
  from Cons.prems obtain l where e: "e = Line l" and inv: "invalid_input (py_len versions) (Line l)"
    by (cases e) auto
  show ?case
  proof (cases "py_int (py_strip l)")
    case None
    with inv pre e show ?thesis
      by (intro exI [of _ "Prompt # InvalidInput # pre"]) (simp add: is_cancel_def)
  next
    case (Some i)
    with inv have "\<not> (0 \<le> i - 1 \<and> i - 1 < int (py_len versions))" by auto
    with Some inv pre e show ?thesis
      by (intro exI [of _ "Prompt # InvalidChoice # pre"]) (auto simp: is_cancel_def)
  qed
qed

lemma select_loop_choice:
  assumes "1 \<le> k" "k \<le> length vs"
  shows "select_loop (VList vs) (Line (py_str_int (int k)) # rest) =
           (Returns (vs ! (k - 1)), rest, [Prompt, Selected])"
proof -
  have ds: "py_str_int (int k) = digits_of k" by (simp add: py_str_int_def)
  have dig: "\<forall>c\<in>set (digits_of k). is_digit c" by (rule digits_of_digits)
  have "py_lower (py_strip (digits_of k)) \<noteq> ''q''"
    using is_cancel_digits [OF dig] by (simp add: is_cancel_def)
  moreover have "py_int (py_strip (digits_of k)) = Some (int k)"
    by (simp add: py_int_strip py_int_digits_of)
  moreover have "nat (int k - 1) = k - 1" by simp
  ultimately show ?thesis using assms by (simp add: ds)
qed

lemma select_loop_cancel:
  "cancels c \<Longrightarrow> \<exists>out. select_loop versions (c # rest) = (Returns VNone, rest, out)
     \<and> count_list out Prompt = 1"
  by (cases c) (auto simp: is_cancel_def)

lemma select_version_list:
  assumes "get_available_versions m = Returns available"
    and "py_get available component (VList []) = Returns (VList vs)"
    and "vs \<noteq> []"
  shows "select_version m component ins =
           (fst (select_loop (VList vs) ins), fst (snd (select_loop (VList vs) ins)),
            Listing (length vs) # snd (snd (select_loop (VList vs) ins)))"
  using assms by (simp add: select_version_def split: prod.splits)

text \<open>
  Claim C1. Take a component whose version list \<open>vs\<close> is not empty, and any inputs \<open>bad\<close>
  that are neither a cancel line nor the text of an integer from 1 to \<open>length vs\<close>. When
  the line after them is the decimal text of such a \<open>k\<close>, \<^verbatim>\<open>select_version\<close> returns
  the \<open>k\<close>-th version (counted from 1); when it is a cancel line, it returns \<^verbatim>\<open>None\<close>.
  In both cases it has asked once more than there are inputs in \<open>bad\<close>, and the input
  after the deciding line is left unread.
\<close>

theorem select_version_returns_choice:
  assumes "get_available_versions m = Returns available"
    and "py_get available component (VList []) = Returns (VList vs)"
    and "vs \<noteq> []"
    and "\<forall>e\<in>set bad. invalid_input (length vs) e"
  shows "(1 \<le> k \<and> k \<le> length vs \<longrightarrow>
           (\<exists>out. select_version m component (bad @ Line (py_str_int (int k)) # rest) =
                    (Returns (vs ! (k - 1)), rest, out)
                  \<and> count_list out Prompt = length bad + 1))
       \<and> (is_cancel l \<longrightarrow>
           (\<exists>out. select_version m component (bad @ Line l # rest) = (Returns VNone, rest, out)
                  \<and> count_list out Prompt = length bad + 1))"
proof (intro conjI impI)
  from assms(4) have bad: "\<forall>e\<in>set bad. invalid_input (py_len (VList vs)) e" by simp
  {
    assume k: "1 \<le> k \<and> k \<le> length vs"
    let ?ins = "Line (py_str_int (int k)) # rest"
    have ch: "select_loop (VList vs) ?ins = (Returns (vs ! (k - 1)), rest, [Prompt, Selected])"
      using k by (intro select_loop_choice) simp_all
    from select_loop_invalid [OF bad, of ?ins] obtain pre where
      "select_loop (VList vs) (bad @ ?ins) =
         (fst (select_loop (VList vs) ?ins), fst (snd (select_loop (VList vs) ?ins)),
          pre @ snd (snd (select_loop (VList vs) ?ins)))"
      and cnt: "count_list pre Prompt = length bad"
      by blast
    then have "select_loop (VList vs) (bad @ ?ins) =
                 (Returns (vs ! (k - 1)), rest, pre @ [Prompt, Selected])"
      by (simp only: ch fst_conv snd_conv)
    with cnt show "\<exists>out. select_version m component (bad @ ?ins) =
                     (Returns (vs ! (k - 1)), rest, out)
                  \<and> count_list out Prompt = length bad + 1"
      by (simp add: select_version_list [OF assms(1-3)] del: select_loop.simps)
  }
  {
    assume "is_cancel l"
    then have c: "cancels (Line l)" by simp
    let ?ins = "Line l # rest"
    from select_loop_cancel [OF c, of "VList vs" rest] obtain out where
      out: "select_loop (VList vs) ?ins = (Returns VNone, rest, out)"
           "count_list out Prompt = 1"
      by blast
    from select_loop_invalid [OF bad, of ?ins] obtain pre where
      "select_loop (VList vs) (bad @ ?ins) =
         (fst (select_loop (VList vs) ?ins), fst (snd (select_loop (VList vs) ?ins)),
          pre @ snd (snd (select_loop (VList vs) ?ins)))"
      and cnt: "count_list pre Prompt = length bad"
      by blast
    then have "select_loop (VList vs) (bad @ ?ins) = (Returns VNone, rest, pre @ out)"
      by (simp only: out fst_conv snd_conv)
    with cnt out(2) show "\<exists>out. select_version m component (bad @ ?ins) =
                     (Returns VNone, rest, out)
                  \<and> count_list out Prompt = length bad + 1"
      by (simp add: select_version_list [OF assms(1-3)] del: select_loop.simps)
  }
qed

lemma example_available:
  "get_available_versions example_manager =
     Returns (VDict [(''qemu'', VList [VStr ''a'', VStr ''b'', VStr ''c''])])"
  by (simp add: get_available_versions_def example_manager_def example_config_def py_get_def)

lemma example_versions:
  "py_get (VDict [(''qemu'', VList [VStr ''a'', VStr ''b'', VStr ''c''])]) ''qemu'' (VList []) =
     Returns (VList [VStr ''a'', VStr ''b'', VStr ''c''])"
  by (simp add: py_get_def)

lemma invalid_five: "\<forall>e\<in>set [Line ''5'']. invalid_input (length [VStr ''a'', VStr ''b'', VStr ''c'']) e"
  by (simp add: is_cancel_def py_strip_def py_lower_def lower_char_def is_space_def py_int_def
        is_digit_def digit_val_def)

lemmas eval_text = is_cancel_def py_strip_def py_lower_def lower_char_def is_space_def py_int_def
  is_digit_def digit_val_def

theorem select_version_returns_choice_witness:
  "get_available_versions example_manager =
     Returns (VDict [(''qemu'', VList [VStr ''a'', VStr ''b'', VStr ''c''])])
   \<and> py_get (VDict [(''qemu'', VList [VStr ''a'', VStr ''b'', VStr ''c''])]) ''qemu'' (VList []) =
       Returns (VList [VStr ''a'', VStr ''b'', VStr ''c''])
   \<and> [VStr ''a'', VStr ''b'', VStr ''c''] \<noteq> []
   \<and> invalid_input (length [VStr ''a'', VStr ''b'', VStr ''c'']) (Line ''5'')
   \<and> (1::nat) \<le> 1 \<and> 1 \<le> length [VStr ''a'', VStr ''b'', VStr ''c'']
   \<and> is_cancel ''q''
   \<and> (\<exists>out. select_version example_manager ''qemu'' ([Line ''5''] @ Line (py_str_int (int 1)) # []) =
               (Returns ([VStr ''a'', VStr ''b'', VStr ''c''] ! (1 - 1)), [], out)
             \<and> count_list out Prompt = length [Line ''5''] + 1)
   \<and> (\<exists>out. select_version example_manager ''qemu'' ([Line ''5''] @ Line ''q'' # []) =
               (Returns VNone, [], out) \<and> count_list out Prompt = length [Line ''5''] + 1)"
proof -
  have c: "is_cancel ''q''" by (simp add: eval_text)
  have ne: "[VStr ''a'', VStr ''b'', VStr ''c''] \<noteq> []" by simp
  have k: "(1::nat) \<le> 1 \<and> 1 \<le> length [VStr ''a'', VStr ''b'', VStr ''c'']" by simp
  note T = select_version_returns_choice
             [OF example_available example_versions ne invalid_five, of 1 "[]" "''q''"]
  from invalid_five
  have i: "invalid_input (length [VStr ''a'', VStr ''b'', VStr ''c'']) (Line ''5'')" by simp
  from T k c example_available example_versions i ne show ?thesis by blast
qed

lemma select_version_example_2:
  "select_version example_manager ''qemu'' [Line ''2''] =
     (Returns (VStr ''b''), [], [Listing 3, Prompt, Selected])"
  by (simp add: select_version_def example_available py_get_def eval_text)

lemma select_version_example_q:
  "select_version example_manager ''qemu'' [Line ''q''] = (Returns VNone, [], [Listing 3, Prompt])"
  by (simp add: select_version_def example_available py_get_def eval_text)

lemma select_version_example_5_1:
  "select_version example_manager ''qemu'' [Line ''5'', Line ''1''] =
     (Returns (VStr ''a''), [], [Listing 3, Prompt, InvalidChoice, Prompt, Selected])"
  by (simp add: select_version_def example_available py_get_def eval_text)

subsection \<open>Cancelling, rendering, building\<close>

lemma lower_char_q: "lower_char c = CHR ''q'' \<longleftrightarrow> c = CHR ''q'' \<or> c = CHR ''Q''"
proof -
  have eq: "\<And>a b :: char. a = b \<longleftrightarrow> (of_char a :: nat) = of_char b" by simp
  have lt: "(of_char c :: nat) < 256" by simp
  show ?thesis
    unfolding lower_char_def Let_def eq [of _ "CHR ''q''"] eq [of _ "CHR ''Q''"]
    using lt by (auto simp: of_char_of)
qed

lemma py_lower_q: "py_lower s = ''q'' \<longleftrightarrow> s = ''q'' \<or> s = ''Q''"
proof (cases s)
  case Nil
  then show ?thesis by (simp add: py_lower_def)
next
  case (Cons c cs)
  then show ?thesis by (cases cs) (auto simp: py_lower_def lower_char_q)
qed

lemma select_loop_strip:
  "select_loop versions (Line l # rest) = select_loop versions (Line (py_strip l) # rest)"
  by (simp add: py_strip_idem)

text \<open>
  Claim C10. For a component with a non-empty version list, a line whose stripped and
  lower-cased form is \<open>q\<close> makes \<^verbatim>\<open>select_version\<close> return \<^verbatim>\<open>None\<close>; these are the lines
  that strip to \<open>q\<close> or \<open>Q\<close>. Every line is treated as its stripped form is.
\<close>

theorem cancel_input_ignores_case_and_spaces:
  assumes "get_available_versions m = Returns available"
    and "py_get available component (VList []) = Returns (VList vs)"
    and "vs \<noteq> []"
  shows "(py_lower (py_strip l) = ''q'' \<longrightarrow>
            select_version m component (Line l # rest) =
              (Returns VNone, rest, [Listing (length vs), Prompt]))
       \<and> (py_lower (py_strip l) = ''q'' \<longleftrightarrow> py_strip l = ''q'' \<or> py_strip l = ''Q'')
       \<and> select_version m component (Line l # rest) =
           select_version m component (Line (py_strip l) # rest)"
proof (intro conjI impI)
  assume "py_lower (py_strip l) = ''q''"
  then show "select_version m component (Line l # rest) =
               (Returns VNone, rest, [Listing (length vs), Prompt])"
    by (simp add: select_version_list [OF assms])
next
  show "py_lower (py_strip l) = ''q'' \<longleftrightarrow> py_strip l = ''q'' \<or> py_strip l = ''Q''"
    by (rule py_lower_q)
next
  show "select_version m component (Line l # rest) =
          select_version m component (Line (py_strip l) # rest)"
    unfolding select_version_list [OF assms] select_loop_strip [of _ l] ..
qed

theorem cancel_input_ignores_case_and_spaces_witness:
  "get_available_versions example_manager =
     Returns (VDict [(''qemu'', VList [VStr ''a'', VStr ''b'', VStr ''c''])])
   \<and> py_get (VDict [(''qemu'', VList [VStr ''a'', VStr ''b'', VStr ''c''])]) ''qemu'' (VList []) =
       Returns (VList [VStr ''a'', VStr ''b'', VStr ''c''])
   \<and> [VStr ''a'', VStr ''b'', VStr ''c''] \<noteq> []
   \<and> py_lower (py_strip ''  Q  '') = ''q''
   \<and> select_version example_manager ''qemu'' (Line ''  Q  '' # []) =
       (Returns VNone, [], [Listing (length [VStr ''a'', VStr ''b'', VStr ''c'']), Prompt])
   \<and> (py_strip ''  Q  '' = ''q'' \<or> py_strip ''  Q  '' = ''Q'')
   \<and> select_version example_manager ''qemu'' (Line ''  Q  '' # []) =
       select_version example_manager ''qemu'' (Line (py_strip ''  Q  '') # [])"
proof -
  have a: "py_lower (py_strip ''  Q  '') = ''q''"
    by (simp add: py_lower_q py_strip_def is_space_def)
  have ne: "[VStr ''a'', VStr ''b'', VStr ''c''] \<noteq> []" by simp
  note T = cancel_input_ignores_case_and_spaces
             [OF example_available example_versions ne, of "''  Q  ''" "[]"]
  from T a example_available example_versions ne show ?thesis by blast
qed

text \<open>
  Claim C8. When the selection ends with a cancel line or an interrupt, after any number
  of inputs that made it ask again, the branch of \<^verbatim>\<open>run\<close> ends normally and the
  manager is what it was: the configuration in memory and every file, the configuration
  file among them.
\<close>

theorem cancelled_selection_changes_nothing:
  assumes "get_available_versions m = Returns available"
    and "py_get available component (VList []) = Returns (VList vs)"
    and "\<forall>e\<in>set bad. invalid_input (length vs) e"
    and "cancels c"
  shows "fst (run_select m component (bad @ c # rest)) = Returns ()
       \<and> fst (snd (run_select m component (bad @ c # rest))) = m"
proof (cases "vs = []")
  case True
  with assms(1,2) have "select_version m component (bad @ c # rest) =
      (Returns VNone, bad @ c # rest, [NoVersions])"
    by (simp add: select_version_def)
  then show ?thesis by (simp add: run_select_def)
next
  case False
  let ?ins = "c # rest"
  from assms(3) have bad: "\<forall>e\<in>set bad. invalid_input (py_len (VList vs)) e" by simp
  from select_loop_cancel [OF assms(4), of "VList vs" rest] obtain out where
    out: "select_loop (VList vs) ?ins = (Returns VNone, rest, out)"
    by blast
  from select_loop_invalid [OF bad, of ?ins] obtain pre where
    "select_loop (VList vs) (bad @ ?ins) =
       (fst (select_loop (VList vs) ?ins), fst (snd (select_loop (VList vs) ?ins)),
        pre @ snd (snd (select_loop (VList vs) ?ins)))"
    by blast
  then have "select_loop (VList vs) (bad @ ?ins) = (Returns VNone, rest, pre @ out)"
    by (simp only: out fst_conv snd_conv)
  then have "select_version m component (bad @ ?ins) =
      (Returns VNone, rest, Listing (length vs) # pre @ out)"
    by (simp add: select_version_list [OF assms(1,2) False] del: select_loop.simps)
  then show ?thesis by (simp add: run_select_def)
qed

theorem cancelled_selection_changes_nothing_witness:
  "get_available_versions example_manager =
     Returns (VDict [(''qemu'', VList [VStr ''a'', VStr ''b'', VStr ''c''])])
   \<and> py_get (VDict [(''qemu'', VList [VStr ''a'', VStr ''b'', VStr ''c''])]) ''qemu'' (VList []) =
       Returns (VList [VStr ''a'', VStr ''b'', VStr ''c''])
   \<and> invalid_input (length [VStr ''a'', VStr ''b'', VStr ''c'']) (Line ''5'')
   \<and> cancels Interrupt
   \<and> fst (run_select example_manager ''qemu'' ([Line ''5''] @ Interrupt # [])) = Returns ()
   \<and> fst (snd (run_select example_manager ''qemu'' ([Line ''5''] @ Interrupt # []))) =
       example_manager"
proof -
  have c: "cancels Interrupt" by simp
  note T = cancelled_selection_changes_nothing
             [OF example_available example_versions invalid_five c, of "[]"]
  from invalid_five
  have i: "invalid_input (length [VStr ''a'', VStr ''b'', VStr ''c'']) (Line ''5'')" by simp
  from T c example_available example_versions i show ?thesis by blast
qed

lemma default_versions_dict:
  assumes "get_defaults m = Returns (VDict d)"
  shows "default_versions m =
     Returns (case map_of d ''qemu_version'' of None \<Rightarrow> VStr ''4.2.1'' | Some v \<Rightarrow> v,
              case map_of d ''gns3_server_version'' of None \<Rightarrow> VStr ''2.2.40'' | Some v \<Rightarrow> v)"
  using assms by (simp add: default_versions_def py_get_def)

lemma has_defaults_mapping_get:
  assumes "has_defaults_mapping c"
  shows "\<exists>d. py_get c ''defaults'' (VDict []) = Returns (VDict d)"
proof (cases c)
  case (VDict kvs)
  with assms show ?thesis
    by (auto simp: py_get_def split: option.splits pyval.splits)
qed (use assms in simp_all)
 
text \<open>
  Claim C5. When the template file does not exist, \<^verbatim>\<open>generate_compose_file\<close> leaves the
  manager and all files as they were, so an output file that exists keeps its content; for
  a configuration of the documented shape it returns \<^verbatim>\<open>False\<close> and raises nothing.
\<close>

theorem missing_template_no_write:
  assumes "files m (template_file m) = None"
  shows "snd (generate_compose_file m) = m
       \<and> (has_defaults_mapping (config m) \<longrightarrow> fst (generate_compose_file m) = Returns False)"
proof (intro conjI impI)
  show "snd (generate_compose_file m) = m"
    using assms by (simp add: generate_compose_file_def split: outcome.splits prod.splits)
next
  assume "has_defaults_mapping (config m)"
  then obtain d where "get_defaults m = Returns (VDict d)"
    using has_defaults_mapping_get by (auto simp: get_defaults_def)
  then show "fst (generate_compose_file m) = Returns False"
    using assms by (simp add: generate_compose_file_def default_versions_dict)
qed

theorem missing_template_no_write_witness:
  "files example_no_template (template_file example_no_template) = None
   \<and> has_defaults_mapping (config example_no_template)
   \<and> snd (generate_compose_file example_no_template) = example_no_template
   \<and> fst (generate_compose_file example_no_template) = Returns False
   \<and> files (snd (generate_compose_file example_no_template)) ''docker-compose.yml'' = Some ''old''"
proof -
  have t: "files example_no_template (template_file example_no_template) = None"
    by (simp add: example_no_template_def example_manager_def)
  have h: "has_defaults_mapping (config example_no_template)"
    by (simp add: example_no_template_def example_manager_def example_config_def)
  have f: "files example_no_template ''docker-compose.yml'' = Some ''old''"
    by (simp add: example_no_template_def)
  from missing_template_no_write [OF t] t h f show ?thesis by simp
qed

text \<open>
  Claim C6. When the two versions the program works with are texts and the template
  exists, the output file is the template with \<^verbatim>\<open>${QEMU_VERSION}\<close> replaced by the one and
  then \<^verbatim>\<open>${GNS3_SERVER_VERSION}\<close> by the other, and the call returns \<^verbatim>\<open>True\<close>. The first
  is \<open>4.2.1\<close> when the defaults have no \<^verbatim>\<open>qemu_version\<close>, the second is \<open>2.2.40\<close> when
  they have no \<^verbatim>\<open>gns3_server_version\<close>.
\<close>

theorem fallback_versions:
  assumes "get_defaults m = Returns (VDict d)"
    and "default_versions m = Returns (VStr q, VStr g)"
    and "files m (template_file m) = Some content"
  shows "generate_compose_file m =
           (Returns True,
            m\<lparr>files := (files m)(compose_file m \<mapsto>
                 replace ''${GNS3_SERVER_VERSION}'' g (replace ''${QEMU_VERSION}'' q content))\<rparr>)
       \<and> (map_of d ''qemu_version'' = None \<longrightarrow> q = ''4.2.1'')
       \<and> (map_of d ''gns3_server_version'' = None \<longrightarrow> g = ''2.2.40'')"
proof (intro conjI impI)
  show "generate_compose_file m =
           (Returns True,
            m\<lparr>files := (files m)(compose_file m \<mapsto>
                 replace ''${GNS3_SERVER_VERSION}'' g (replace ''${QEMU_VERSION}'' q content))\<rparr>)"
    using assms(2,3)
    by (simp add: generate_compose_file_def render_def qemu_placeholder_def gns3_placeholder_def)
next
  assume "map_of d ''qemu_version'' = None"
  with assms(2) show "q = ''4.2.1''" by (simp add: default_versions_dict [OF assms(1)])
next
  assume "map_of d ''gns3_server_version'' = None"
  with assms(2) show "g = ''2.2.40''" by (simp add: default_versions_dict [OF assms(1)])
qed

theorem fallback_versions_witness:
  "get_defaults example_no_defaults = Returns (VDict [])
   \<and> default_versions example_no_defaults = Returns (VStr ''4.2.1'', VStr ''2.2.40'')
   \<and> files example_no_defaults (template_file example_no_defaults) = Some ''X=${QEMU_VERSION} Y=${B}''
   \<and> map_of ([] :: (string \<times> pyval) list) ''qemu_version'' = None
   \<and> map_of ([] :: (string \<times> pyval) list) ''gns3_server_version'' = None
   \<and> generate_compose_file example_no_defaults =
        (Returns True,
         example_no_defaults\<lparr>files := (files example_no_defaults)(compose_file example_no_defaults \<mapsto>
            replace ''${GNS3_SERVER_VERSION}'' ''2.2.40''
              (replace ''${QEMU_VERSION}'' ''4.2.1'' ''X=${QEMU_VERSION} Y=${B}''))\<rparr>)"
proof -
  have d: "get_defaults example_no_defaults = Returns (VDict [])"
    by (simp add: get_defaults_def example_no_defaults_def py_get_def)
  have v: "default_versions example_no_defaults = Returns (VStr ''4.2.1'', VStr ''2.2.40'')"
    by (simp add: default_versions_dict [OF d])
  have t: "files example_no_defaults (template_file example_no_defaults) =
             Some ''X=${QEMU_VERSION} Y=${B}''"
    by (simp add: example_no_defaults_def example_manager_def)
  from fallback_versions [OF d v t] d v t show ?thesis by simp
qed

lemma generate_compose_file_example:
  "files (snd (generate_compose_file example_no_defaults)) ''docker-compose.yml'' =
     Some ''X=4.2.1 Y=${B}''"
  by (simp add: generate_compose_file_def default_versions_def get_defaults_def py_get_def
        example_no_defaults_def example_manager_def render_def qemu_placeholder_def
        gns3_placeholder_def)

text \<open>
  Claim C9. With \<open>q\<close> the text under \<^verbatim>\<open>qemu_version\<close> (or \<open>4.2.1\<close> when there is none)
  and \<open>g\<close> the text under \<^verbatim>\<open>gns3_server_version\<close> (or \<open>2.2.40\<close>), \<^verbatim>\<open>build_image\<close>
  runs \<^verbatim>\<open>docker build\<close> with the build arguments \<open>QEMU_VERSION=q\<close> and
  \<open>GNS3_SERVER_VERSION=g\<close> and the tag \<open>gns3-qemu:q-server-g\<close>, and returns whether
  the command succeeded.
\<close>

theorem build_image_tag_and_arguments:
  assumes "get_defaults m = Returns (VDict d)"
    and "(case map_of d ''qemu_version'' of None \<Rightarrow> VStr ''4.2.1'' | Some v \<Rightarrow> v) = VStr q"
    and "(case map_of d ''gns3_server_version'' of None \<Rightarrow> VStr ''2.2.40'' | Some v \<Rightarrow> v) = VStr g"
  shows "build_image runner m =
           (let cmd = [''docker'', ''build'',
                       ''--build-arg'', ''QEMU_VERSION='' @ q,
                       ''--build-arg'', ''GNS3_SERVER_VERSION='' @ g,
                       ''-t'', ''gns3-qemu:'' @ q @ ''-server-'' @ g,
                       ''.'']
            in Returns (cmd, runner cmd = Success))"
  using assms(2,3)
  by (simp add: build_image_def default_versions_dict [OF assms(1)] build_cmd_def image_name_def
        split: run_result.splits)

theorem build_image_tag_and_arguments_witness:
  "get_defaults example_manager = Returns (VDict [(''gns3_server_version'', VStr ''2.2.40'')])
   \<and> build_image (\<lambda>cmd. Success) example_manager =
       Returns ([''docker'', ''build'',
                 ''--build-arg'', ''QEMU_VERSION=4.2.1'',
                 ''--build-arg'', ''GNS3_SERVER_VERSION=2.2.40'',
                 ''-t'', ''gns3-qemu:4.2.1-server-2.2.40'',
                 ''.''], True)"
proof -
  have d: "get_defaults example_manager =
             Returns (VDict [(''gns3_server_version'', VStr ''2.2.40'')])"
    by (simp add: get_defaults_def example_manager_def example_config_def py_get_def)
  have q: "(case map_of [(''gns3_server_version'', VStr ''2.2.40'')] ''qemu_version'' of
              None \<Rightarrow> VStr ''4.2.1'' | Some v \<Rightarrow> v) = VStr ''4.2.1''"
    by simp
  have g: "(case map_of [(''gns3_server_version'', VStr ''2.2.40'')] ''gns3_server_version'' of
              None \<Rightarrow> VStr ''2.2.40'' | Some v \<Rightarrow> v) = VStr ''2.2.40''"
    by simp
  from build_image_tag_and_arguments [OF d q g, of "\<lambda>cmd. Success"] d show ?thesis by simp
qed

subsection \<open>Replacing placeholders\<close>

lemma replace_skip:
  assumes "old \<noteq> []" and "hd old \<notin> set u"
  shows "replace old new (u @ x) = u @ replace old new x"
  using assms
proof (induction u)
  case Nil
  then show ?case by simp
next
  case (Cons c u)
  then have "\<not> prefix old (c # u @ x)" by (cases old) auto
  with Cons show ?case by simp
qed

lemma prefix_straddle:
  assumes "prefix old (a @ b)" and "a \<noteq> []" and "b \<noteq> []" and "hd b \<notin> set (tl old)"
  shows "prefix old a"
proof -
  from assms(1) consider "prefix old a" | us where "old = a @ us" "prefix us b"
    by (auto simp: prefix_append)
  then show ?thesis
  proof cases
    case 1
    then show ?thesis .
  next
    case 2
    show ?thesis
    proof (cases us)
      case Nil
      with 2 show ?thesis by simp
    next
      case (Cons y ys)
      with 2 assms(3) have "y = hd b" by (cases b) auto
      moreover from 2 Cons assms(2) have "y \<in> set (tl old)" by (cases a) auto
      ultimately show ?thesis using assms(4) by simp
    qed
  qed
qed

lemma drop_append_le: "n \<le> length xs \<Longrightarrow> drop n (xs @ ys) = drop n xs @ ys"
  by simp

lemma replace_before:
  assumes "old \<noteq> []" and "b \<noteq> []" and "hd b \<notin> set (tl old)"
  shows "replace old new (a @ b) = replace old new a @ replace old new b"
  using assms
proof (induction old new a rule: replace.induct)
  case (1 old new)
  then show ?case by simp
next
  case (2 old new c cs)
  show ?case
  proof (cases "prefix old (c # cs)")
    case True
    then have len: "length old \<le> length (c # cs)" by (rule prefix_length_le)
    from True have p: "prefix old ((c # cs) @ b)" by (rule prefix_prefix)
    from len have "drop (length old) ((c # cs) @ b) = drop (length old) (c # cs) @ b"
      by (rule drop_append_le)
    with True p 2 show ?thesis by simp
  next
    case False
    with prefix_straddle [of old "c # cs" b] "2.prems"
    have "\<not> prefix old ((c # cs) @ b)" by auto
    with False 2 show ?thesis by simp
  qed
qed

lemma first_brace:
  assumes "prefix (a @ CHR ''}'' # x) (b @ CHR ''}'' # y)"
    and "CHR ''}'' \<notin> set a" and "CHR ''}'' \<notin> set b"
  shows "a = b"
  using assms
proof (induction a arbitrary: b)
  case Nil
  then show ?case by (cases b) auto
next
  case (Cons c a)
  then show ?case by (cases b) auto
qed

lemma replace_other_placeholder:
  assumes "name \<noteq> n" and "CHR ''$'' \<notin> set name" and "CHR ''}'' \<notin> set name"
    and "CHR ''$'' \<notin> set n" and "CHR ''}'' \<notin> set n"
  shows "replace (''${'' @ n @ ''}'') new (pre @ ''${'' @ name @ ''}'' @ post) =
         replace (''${'' @ n @ ''}'') new pre @ ''${'' @ name @ ''}'' @
         replace (''${'' @ n @ ''}'') new post"
proof -
  let ?old = "''${'' @ n @ ''}''"
  let ?sep = "''${'' @ name @ ''}''"
  have "\<not> prefix (n @ CHR ''}'' # []) (name @ CHR ''}'' # post)"
    using first_brace [of n "[]" name post] assms by auto
  then have np: "\<not> prefix ?old (?sep @ post)" by simp
  have "replace ?old new (?sep @ post) = CHR ''$'' # replace ?old new ((CHR ''{'' # name @ ''}'') @ post)"
    using np by simp
  also have "\<dots> = CHR ''$'' # (CHR ''{'' # name @ ''}'') @ replace ?old new post"
    using assms(2) by (subst replace_skip) simp_all
  finally have sep: "replace ?old new (?sep @ post) = ?sep @ replace ?old new post" by simp
  have "replace ?old new (pre @ (?sep @ post)) = replace ?old new pre @ replace ?old new (?sep @ post)"
    using assms(4) by (intro replace_before) simp_all
  with sep show ?thesis by simp
qed

lemma render_other_placeholder:
  assumes "name \<noteq> ''QEMU_VERSION''" and "name \<noteq> ''GNS3_SERVER_VERSION''"
    and "CHR ''$'' \<notin> set name" and "CHR ''}'' \<notin> set name"
  shows "render q g (pre @ ''${'' @ name @ ''}'' @ post) =
         render q g pre @ ''${'' @ name @ ''}'' @ render q g post"
proof -
  have q: "qemu_placeholder = ''${'' @ ''QEMU_VERSION'' @ ''}''" by (simp add: qemu_placeholder_def)
  have g: "gns3_placeholder = ''${'' @ ''GNS3_SERVER_VERSION'' @ ''}''"
    by (simp add: gns3_placeholder_def)
  have 1: "replace (''${'' @ ''QEMU_VERSION'' @ ''}'') q (pre @ ''${'' @ name @ ''}'' @ post) =
           replace (''${'' @ ''QEMU_VERSION'' @ ''}'') q pre @ ''${'' @ name @ ''}'' @
           replace (''${'' @ ''QEMU_VERSION'' @ ''}'') q post"
    using assms by (intro replace_other_placeholder) simp_all
  have 2: "\<And>a b. replace (''${'' @ ''GNS3_SERVER_VERSION'' @ ''}'') g (a @ ''${'' @ name @ ''}'' @ b) =
           replace (''${'' @ ''GNS3_SERVER_VERSION'' @ ''}'') g a @ ''${'' @ name @ ''}'' @
           replace (''${'' @ ''GNS3_SERVER_VERSION'' @ ''}'') g b"
    using assms by (intro replace_other_placeholder) simp_all
  show ?thesis
    unfolding render_def q g by (simp only: 1 2)
qed

text \<open>
  Claim C2. Let the two versions the program works with be texts. A placeholder
  \<^verbatim>\<open>${name}\<close> in the template whose name is neither \<^verbatim>\<open>QEMU_VERSION\<close> nor
  \<^verbatim>\<open>GNS3_SERVER_VERSION\<close> (and, being a name, has no \<open>$\<close> and no closing brace in it)
  stands in the output file as it stood in the template, between the rendered text before
  it and the rendered text after it; the call returns \<^verbatim>\<open>True\<close>.
\<close>

theorem render_keeps_other_placeholders:
  assumes "default_versions m = Returns (VStr q, VStr g)"
    and "files m (template_file m) = Some (pre @ ''${'' @ name @ ''}'' @ post)"
    and "name \<noteq> ''QEMU_VERSION''" and "name \<noteq> ''GNS3_SERVER_VERSION''"
    and "CHR ''$'' \<notin> set name" and "CHR ''}'' \<notin> set name"
  shows "generate_compose_file m =
           (Returns True,
            m\<lparr>files := (files m)(compose_file m \<mapsto>
                 render q g pre @ ''${'' @ name @ ''}'' @ render q g post)\<rparr>)"
  using assms(1,2) render_other_placeholder [OF assms(3-6), of q g pre post]
  by (simp add: generate_compose_file_def)

theorem render_keeps_other_placeholders_witness:
  "default_versions example_one = Returns (VStr ''1'', VStr ''2.2.40'')
   \<and> files example_one (template_file example_one) = Some (''X=${QEMU_VERSION} Y='' @ ''${'' @ ''B'' @ ''}'' @ [])
   \<and> ''B'' \<noteq> ''QEMU_VERSION'' \<and> ''B'' \<noteq> ''GNS3_SERVER_VERSION''
   \<and> CHR ''$'' \<notin> set ''B'' \<and> CHR ''}'' \<notin> set ''B''
   \<and> generate_compose_file example_one =
        (Returns True, example_one\<lparr>files := (files example_one)(compose_file example_one \<mapsto> ''X=1 Y=${B}'')\<rparr>)"
proof -
  have d: "get_defaults example_one = Returns (VDict [(''qemu_version'', VStr ''1'')])"
    by (simp add: get_defaults_def example_one_def py_get_def)
  have v: "default_versions example_one = Returns (VStr ''1'', VStr ''2.2.40'')"
    by (simp add: default_versions_dict [OF d])
  have t: "files example_one (template_file example_one) =
             Some (''X=${QEMU_VERSION} Y='' @ ''${'' @ ''B'' @ ''}'' @ [])"
    by (simp add: example_one_def example_manager_def)
  have n: "''B'' \<noteq> ''QEMU_VERSION''" "''B'' \<noteq> ''GNS3_SERVER_VERSION''"
    "CHR ''$'' \<notin> set ''B''" "CHR ''}'' \<notin> set ''B''"
    by simp_all
  have r: "render ''1'' ''2.2.40'' ''X=${QEMU_VERSION} Y='' = ''X=1 Y=''"
    "render ''1'' ''2.2.40'' [] = []"
    by (simp_all add: render_def qemu_placeholder_def gns3_placeholder_def)
  from render_keeps_other_placeholders [OF v t n] v t n r show ?thesis by simp
qed

lemma prefix_replace_back:
  assumes "old \<noteq> []" and "new \<noteq> []" and "hd new \<notin> set p"
    and "prefix p (replace old new t)"
  shows "prefix p t"
  using assms(3,4)
proof (induction p arbitrary: t)
  case Nil
  then show ?case by simp
next
  case (Cons x p)
  show ?case
  proof (cases t)
    case Nil
    with Cons.prems assms(1) show ?thesis by simp
  next
    case (Cons c cs)
    show ?thesis
    proof (cases "prefix old (c # cs)")
      case True
      with assms(1) have "replace old new t = new @ replace old new (drop (length old) (c # cs))"
        by (simp add: Cons)
      with Cons.prems(2) assms(2) have "x = hd new" by (cases new) auto
      with Cons.prems(1) show ?thesis by simp
    next
      case False
      with assms(1) have "replace old new t = c # replace old new cs" by (simp add: Cons)
      with Cons.prems(2) have "x = c" "prefix p (replace old new cs)" by auto
      moreover from Cons.prems(1) have "hd new \<notin> set p" by simp
      ultimately show ?thesis using Cons.IH [of cs] by (simp add: Cons)
    qed
  qed
qed

lemma replace_at_prefix:
  assumes "old \<noteq> []"
  shows "replace old new (old @ x) = new @ replace old new x"
proof -
  from assms obtain c cs where "old @ x = c # cs" by (cases old) auto
  moreover have "prefix old (old @ x)" by simp
  ultimately show ?thesis using assms by (metis append_eq_conv_conj replace.simps(2))
qed

lemma render_substitute_both:
  "q \<noteq> [] \<Longrightarrow> CHR ''$'' \<notin> set q \<Longrightarrow> hd q \<notin> set ''{GNS3_SERVER_VERSION}'' \<Longrightarrow>
   render q g t = substitute_both q g t"
proof (induction q g t rule: substitute_both.induct)
  case (1 q g)
  then show ?case by (simp add: render_def qemu_placeholder_def gns3_placeholder_def)
next
  case (2 q g c cs)
  let ?T1 = qemu_placeholder and ?T2 = gns3_placeholder
  have T1: "?T1 \<noteq> []" "hd ?T1 = CHR ''$''" by (simp_all add: qemu_placeholder_def)
  have T2: "?T2 \<noteq> []" "hd ?T2 = CHR ''$''" "?T2 = CHR ''$'' # ''{GNS3_SERVER_VERSION}''"
    by (simp_all add: gns3_placeholder_def)
  have skip2: "\<And>x. replace ?T2 g (q @ x) = q @ replace ?T2 g x"
    using T2(1,2) "2.prems"(2) by (intro replace_skip) simp_all
  consider (a) "prefix ?T1 (c # cs)"
    | (b) "\<not> prefix ?T1 (c # cs)" "prefix ?T2 (c # cs)"
    | (c) "\<not> prefix ?T1 (c # cs)" "\<not> prefix ?T2 (c # cs)"
    by blast
  then show ?case
  proof cases
    case a
    let ?t = "drop (length ?T1) (c # cs)"
    from a "2.IH"(1) "2.prems" have IH: "render q g ?t = substitute_both q g ?t" by blast
    from a T1(1) have "replace ?T1 q (c # cs) = q @ replace ?T1 q ?t" by simp
    then have "render q g (c # cs) = q @ render q g ?t" by (simp add: render_def skip2)
    moreover from a have "substitute_both q g (c # cs) = q @ substitute_both q g ?t" by simp
    ultimately show ?thesis using IH by simp
  next
    case b
    let ?t = "drop (length ?T2) (c # cs)"
    from b "2.IH"(2) "2.prems" have IH: "render q g ?t = substitute_both q g ?t" by blast
    from b(2) obtain t' where t': "c # cs = ?T2 @ t'" by (auto simp: prefix_def)
    have dt: "?t = t'" unfolding t' by simp
    from t' have "c # cs = CHR ''$'' # ''{GNS3_SERVER_VERSION}'' @ t'"
      by (simp add: gns3_placeholder_def)
    then have c: "c = CHR ''$''" and cs: "cs = ''{GNS3_SERVER_VERSION}'' @ ?t"
      unfolding dt by simp_all
    have "replace ?T1 q (''{GNS3_SERVER_VERSION}'' @ ?t) = ''{GNS3_SERVER_VERSION}'' @ replace ?T1 q ?t"
      using T1 by (intro replace_skip) simp_all
    with b(1) T1(1) cs have "replace ?T1 q (c # cs) = c # ''{GNS3_SERVER_VERSION}'' @ replace ?T1 q ?t"
      by simp
    with c T2(3) have "replace ?T1 q (c # cs) = ?T2 @ replace ?T1 q ?t" by simp
    then have "render q g (c # cs) = g @ render q g ?t"
      by (simp add: render_def replace_at_prefix [OF T2(1)])
    moreover from b have "substitute_both q g (c # cs) = g @ substitute_both q g ?t" by simp
    ultimately show ?thesis using IH by simp
  next
    case c
    from c "2.IH"(3) "2.prems" have IH: "render q g cs = substitute_both q g cs" by blast
    from c(1) T1(1) have r1: "replace ?T1 q (c # cs) = c # replace ?T1 q cs" by simp
    have "\<not> prefix ?T2 (c # replace ?T1 q cs)"
    proof
      assume p: "prefix ?T2 (c # replace ?T1 q cs)"
      then have "prefix (CHR ''$'' # ''{GNS3_SERVER_VERSION}'') (c # replace ?T1 q cs)"
        by (simp add: gns3_placeholder_def)
      then have "c = CHR ''$''" "prefix ''{GNS3_SERVER_VERSION}'' (replace ?T1 q cs)"
        by simp_all
      with prefix_replace_back [OF T1(1) "2.prems"(1,3)]
      have "c = CHR ''$''" "prefix ''{GNS3_SERVER_VERSION}'' cs" by blast+
      then have "prefix ?T2 (c # cs)" by (simp add: gns3_placeholder_def)
      with c(2) show False by simp
    qed
    with T2(1) have "replace ?T2 g (c # replace ?T1 q cs) = c # replace ?T2 g (replace ?T1 q cs)"
      by simp
    with r1 have "render q g (c # cs) = c # render q g cs" by (simp add: render_def)
    moreover from c have "substitute_both q g (c # cs) = c # substitute_both q g cs" by simp
    ultimately show ?thesis using IH by simp
  qed
qed

text \<open>
  The second \<^verbatim>\<open>replace\<close> works on the result of the first. A QEMU version that reads
  \<^verbatim>\<open>${GNS3_SERVER_VERSION}\<close> is therefore replaced in its turn, which a substitution of
  both placeholders at once would not do.
\<close>

theorem render_nested_counterexample:
  "render ''${GNS3_SERVER_VERSION}'' ''2.2.40'' ''${QEMU_VERSION}'' = ''2.2.40''
   \<and> substitute_both ''${GNS3_SERVER_VERSION}'' ''2.2.40'' ''${QEMU_VERSION}'' =
       ''${GNS3_SERVER_VERSION}''"
  by (simp add: render_def qemu_placeholder_def gns3_placeholder_def)

text \<open>
  Claim C3, as the code has it. Let the two versions the program works with be texts and
  the template exist. The output file is the template with both placeholders substituted
  at once, in one pass, whenever the QEMU version is not empty, has no \<open>$\<close> in it and
  does not begin with a character of \<^verbatim>\<open>{GNS3_SERVER_VERSION}\<close>.
\<close>

theorem render_simultaneous_when_qemu_plain:
  assumes "default_versions m = Returns (VStr q, VStr g)"
    and "files m (template_file m) = Some content"
    and "q \<noteq> []" and "CHR ''$'' \<notin> set q" and "hd q \<notin> set ''{GNS3_SERVER_VERSION}''"
  shows "generate_compose_file m =
           (Returns True,
            m\<lparr>files := (files m)(compose_file m \<mapsto> substitute_both q g content)\<rparr>)"
  using assms(1,2) render_substitute_both [OF assms(3-5), of g content]
  by (simp add: generate_compose_file_def)

theorem render_simultaneous_when_qemu_plain_witness:
  "default_versions example_no_defaults = Returns (VStr ''4.2.1'', VStr ''2.2.40'')
   \<and> files example_no_defaults (template_file example_no_defaults) = Some ''X=${QEMU_VERSION} Y=${B}''
   \<and> ''4.2.1'' \<noteq> [] \<and> CHR ''$'' \<notin> set ''4.2.1'' \<and> hd ''4.2.1'' \<notin> set ''{GNS3_SERVER_VERSION}''
   \<and> generate_compose_file example_no_defaults =
        (Returns True,
         example_no_defaults\<lparr>files := (files example_no_defaults)(compose_file example_no_defaults \<mapsto>
            substitute_both ''4.2.1'' ''2.2.40'' ''X=${QEMU_VERSION} Y=${B}'')\<rparr>)"
proof -
  have d: "get_defaults example_no_defaults = Returns (VDict [])"
    by (simp add: get_defaults_def example_no_defaults_def py_get_def)
  have v: "default_versions example_no_defaults = Returns (VStr ''4.2.1'', VStr ''2.2.40'')"
    by (simp add: default_versions_dict [OF d])
  have t: "files example_no_defaults (template_file example_no_defaults) =
             Some ''X=${QEMU_VERSION} Y=${B}''"
    by (simp add: example_no_defaults_def example_manager_def)
  have n: "''4.2.1'' \<noteq> []" "CHR ''$'' \<notin> set ''4.2.1''"
    "hd ''4.2.1'' \<notin> set ''{GNS3_SERVER_VERSION}''"
    by simp_all
  from render_simultaneous_when_qemu_plain [OF v t n] v t n show ?thesis by blast
qed

subsection \<open>Writing a value as JSON and reading it back\<close>

lemma hex_val_hex_digit: "n < 16 \<Longrightarrow> hex_val (hex_digit n) = Some n"
  by (auto simp: hex_val_def hex_digit_def Let_def of_char_of)

lemma hex_val_zero: "hex_val CHR ''0'' = Some 0"
  by (simp add: hex_val_def)

lemma cons_out_Returns: "cons_out c (Returns (s, r)) = Returns (c # s, r)"
  by (simp add: cons_out_def)

lemma char_neq_iff: "(a :: char) \<noteq> b \<longleftrightarrow> (of_char a :: nat) \<noteq> of_char b"
  by simp

lemma scanstring_esc_char: "scanstring (esc_char c @ t) = cons_out c (scanstring t)"
proof -
  have lt: "(of_char c :: nat) < 256" by simp
  then have d: "(of_char c :: nat) div 16 < 16" "(of_char c :: nat) mod 16 < 16" by arith+
  have v: "(0 * 16 + 0) * 16 * 16 + ((of_char c :: nat) div 16) * 16 + (of_char c :: nat) mod 16
             = of_char c" by simp
  consider (dq) "c = DQ" | (bs) "c = BSL" | (nl) "c = NL" | (cr) "c = CR" | (tab) "c = TAB"
    | (bsp) "c = BSP" | (ff) "c = FF"
    | (plain) "c \<noteq> DQ" "c \<noteq> BSL" "32 \<le> (of_char c :: nat)" "(of_char c :: nat) \<le> 126"
    | (other) "c \<noteq> DQ" "c \<noteq> BSL" "c \<noteq> NL" "c \<noteq> CR" "c \<noteq> TAB" "c \<noteq> BSP" "c \<noteq> FF"
        "\<not> (32 \<le> (of_char c :: nat) \<and> (of_char c :: nat) \<le> 126)"
    by blast
  then show ?thesis
  proof cases
    case plain
    then have "esc_char c = [c]" by (auto simp: esc_char_def)
    with plain show ?thesis by simp
  next
    case other
    then have "esc_char c = [BSL, CHR ''u'', CHR ''0'', CHR ''0'',
        hex_digit ((of_char c :: nat) div 16), hex_digit ((of_char c :: nat) mod 16)]"
      by (simp add: esc_char_def)
    then show ?thesis using lt
      by (simp add: hex_val_zero hex_val_hex_digit d)
  qed (simp_all add: esc_char_def unescape_def)
qed

lemma scanstring_escaped:
  "scanstring (concat (map esc_char s) @ DQ # rest) = Returns (s, rest)"
  by (induction s) (simp_all add: scanstring_esc_char cons_out_Returns del: scanstring.simps(2), simp)

lemma scanstring_encode_str:
  "scanstring (tl (encode_str s) @ rest) = Returns (s, rest)"
  by (simp add: encode_str_def scanstring_escaped)

lemma digit_char_zero: "d < 10 \<Longrightarrow> digit_char d = CHR ''0'' \<longleftrightarrow> d = 0"
proof -
  assume d: "d < 10"
  have "digit_char d = CHR ''0'' \<longleftrightarrow> (of_char (digit_char d) :: nat) = of_char CHR ''0''"
    by (simp only: of_char_eq_iff)
  with d show ?thesis by (simp add: of_char_digit_char)
qed

lemma digits_of_zero: "digits_of 0 = ''0''"
  by (subst digits_of.simps) (simp add: digit_char_zero)

lemma digits_of_hd: "0 < n \<Longrightarrow> hd (digits_of n) \<noteq> CHR ''0''"
proof (induction n rule: digits_of.induct)
  case (1 n)
  show ?case
  proof (cases "n < 10")
    case True
    with 1 show ?thesis by (subst digits_of.simps) (simp add: digit_char_zero)
  next
    case False
    then have "0 < n div 10" by simp
    with 1 False have "hd (digits_of (n div 10)) \<noteq> CHR ''0''" by simp 
    with False show ?thesis
      by (subst digits_of.simps) (simp add: digits_of_nonempty)
  qed
qed

lemma delimited_no_digit: "delimited rest \<Longrightarrow> rest = [] \<or> \<not> is_digit (hd rest)"
  by (cases rest) (auto simp: delimited_def is_digit_def)

lemma delimited_no_float: "delimited rest \<Longrightarrow> \<not> is_float_tail rest"
  by (cases rest) (auto simp: delimited_def is_float_tail_def split: list.splits)

lemma takeWhile_all:
  "\<forall>c\<in>set ds. P c \<Longrightarrow> rest = [] \<or> \<not> P (hd rest) \<Longrightarrow> takeWhile P (ds @ rest) = ds"
  by (cases rest) (auto simp: takeWhile_append2)

lemma match_number_digits:
  assumes "delimited rest"
  shows "match_number (digits_of n @ rest) = Returns (VInt (int n), rest)"
proof -
  let ?ds = "digits_of n"
  have dig: "\<forall>c\<in>set ?ds. is_digit c" by (rule digits_of_digits)
  obtain c cs where ds: "?ds = c # cs" using digits_of_nonempty [of n] by (cases ?ds) auto
  with dig have c: "is_digit c" by (metis list.set_intros(1))
  then have nm: "c \<noteq> CHR ''-''" by (auto simp: is_digit_def)
  have tw: "takeWhile is_digit (?ds @ rest) = ?ds"
    using dig delimited_no_digit [OF assms] by (rule takeWhile_all)
  show ?thesis
  proof (cases "c = CHR ''0''")
    case True
    with ds digits_of_hd [of n] have "n = 0" by (cases "n = 0") auto
    then show ?thesis
      using delimited_no_float [OF assms]
      by (simp add: match_number_def digits_of_zero is_digit_def digits_val_def digit_val_def)
  next
    case False
    have "match_number ((c # cs) @ rest) = Returns (VInt (int (digits_val (c # cs))), rest)"
      using False c nm tw delimited_no_float [OF assms] unfolding ds
      by (simp add: match_number_def Let_def)
    then show ?thesis by (simp add: ds [symmetric] digits_val_digits_of)
  qed
qed

lemma match_number_negative:
  assumes "delimited rest" and "0 < n"
  shows "match_number (CHR ''-'' # digits_of n @ rest) = Returns (VInt (- int n), rest)"
proof -
  let ?ds = "digits_of n"
  have dig: "\<forall>c\<in>set ?ds. is_digit c" by (rule digits_of_digits)
  obtain c cs where ds: "?ds = c # cs" using digits_of_nonempty [of n] by (cases ?ds) auto
  with dig have c: "is_digit c" by (metis list.set_intros(1))
  from ds digits_of_hd [OF assms(2)] have nz: "c \<noteq> CHR ''0''" by simp
  have tw: "takeWhile is_digit (?ds @ rest) = ?ds"
    using dig delimited_no_digit [OF assms(1)] by (rule takeWhile_all)
  have "match_number (CHR ''-'' # (c # cs) @ rest) = Returns (VInt (- int (digits_val (c # cs))), rest)"
    using nz c tw delimited_no_float [OF assms(1)] unfolding ds
    by (simp add: match_number_def Let_def)
  then show ?thesis by (simp add: ds [symmetric] digits_val_digits_of)
qed

lemma is_digit_first:
  assumes "is_digit c"
  shows "c \<noteq> DQ" "c \<noteq> CHR ''{''" "c \<noteq> CHR ''[''" "c \<noteq> CHR ''n''" "c \<noteq> CHR ''t''"
    "c \<noteq> CHR ''f''" "c \<noteq> CHR ''N''" "c \<noteq> CHR ''I''" "c \<noteq> CHR ''-''"
  using assms by (auto simp: is_digit_def)

lemma parse_value_digits:
  assumes "is_digit c"
  shows "parse_value (Suc n) (c # cs) = match_number (c # cs)"
  using is_digit_first [OF assms] by simp

lemma parse_value_minus_digit:
  assumes "is_digit c"
  shows "parse_value (Suc n) (CHR ''-'' # c # cs) = match_number (CHR ''-'' # c # cs)"
  using is_digit_first [OF assms] by simp

lemma parse_value_int:
  assumes "delimited rest"
  shows "parse_value (Suc n) (py_str_int i @ rest) = Returns (VInt i, rest)"
proof (cases "i < 0")
  case True
  let ?m = "nat (- i)"
  from True have m: "0 < ?m" "- int ?m = i" by simp_all
  obtain c cs where ds: "digits_of ?m = c # cs"
    using digits_of_nonempty [of ?m] by (cases "digits_of ?m") auto
  with digits_of_digits [of ?m] have c: "is_digit c" by (metis list.set_intros(1))
  have "parse_value (Suc n) (CHR ''-'' # digits_of ?m @ rest) =
        match_number (CHR ''-'' # digits_of ?m @ rest)"
    unfolding ds using parse_value_minus_digit [OF c] by simp
  moreover have "py_str_int i = CHR ''-'' # digits_of ?m"
    unfolding py_str_int_def using True by (rule if_P)
  ultimately show ?thesis
    using m match_number_negative [OF assms m(1)] by (simp del: parse_value.simps)
next
  case False
  let ?m = "nat i"
  from False have m: "int ?m = i" by simp
  obtain c cs where ds: "digits_of ?m = c # cs"
    using digits_of_nonempty [of ?m] by (cases "digits_of ?m") auto
  with digits_of_digits [of ?m] have c: "is_digit c" by (metis list.set_intros(1))
  have "parse_value (Suc n) (digits_of ?m @ rest) = match_number (digits_of ?m @ rest)"
    unfolding ds using parse_value_digits [OF c] by simp
  moreover have "py_str_int i = digits_of ?m"
    unfolding py_str_int_def using False by (rule if_not_P)
  ultimately show ?thesis
    using m match_number_digits [OF assms, of ?m] by (simp del: parse_value.simps)
qed

lemma skip_ws_all: "\<forall>c\<in>set u. is_ws c \<Longrightarrow> skip_ws (u @ x) = skip_ws x"
  by (simp add: skip_ws_def dropWhile_append2)

lemma skip_ws_newline_indent: "skip_ws (newline_indent k @ x) = skip_ws x"
  by (rule skip_ws_all) (auto simp: newline_indent_def is_ws_def)

lemma skip_ws_Cons: "\<not> is_ws c \<Longrightarrow> skip_ws (c # x) = c # x"
  by (simp add: skip_ws_def)

lemma dict_set_fresh: "k \<notin> fst ` set acc \<Longrightarrow> dict_set acc k v = acc @ [(k, v)]"
  by (induction acc) auto

lemma py_dict_acc:
  "distinct (map fst (acc @ kvs)) \<Longrightarrow>
   foldl (\<lambda>d kv. dict_set d (fst kv) (snd kv)) acc kvs = acc @ kvs"
proof (induction kvs arbitrary: acc)
  case Nil
  then show ?case by simp
next
  case (Cons kv kvs)
  then have "fst kv \<notin> fst ` set acc" by auto
  then have "dict_set acc (fst kv) (snd kv) = acc @ [kv]" by (simp add: dict_set_fresh)
  moreover from Cons.prems have "distinct (map fst ((acc @ [kv]) @ kvs))" by simp
  ultimately show ?case using Cons.IH [of "acc @ [kv]"] by simp
qed

lemma py_dict_distinct: "distinct (map fst kvs) \<Longrightarrow> py_dict kvs = kvs"
  using py_dict_acc [of "[]" kvs] by (simp add: py_dict_def)

lemma opens_value_append: "opens_value s \<Longrightarrow> opens_value (s @ t)"
  by (cases s) (auto simp: opens_value_def)

lemma opens_value_Cons: "opens_value (c # s) \<longleftrightarrow> \<not> is_ws c \<and> c \<noteq> CHR '']'' \<and> c \<noteq> CHR ''}''"
  by (simp add: opens_value_def)

lemma is_digit_opens: "is_digit c \<Longrightarrow> opens_value (c # s)"
  by (auto simp: opens_value_def is_digit_def is_ws_def)

lemma digits_of_opens: "opens_value (digits_of n @ s)"
proof -
  obtain c cs where ds: "digits_of n = c # cs"
    using digits_of_nonempty [of n] by (cases "digits_of n") auto
  with digits_of_digits [of n] have "is_digit c" by (metis list.set_intros(1))
  then show ?thesis unfolding ds by (simp add: is_digit_opens)
qed

lemma enc_opens: "opens_value (enc lvl v)"
proof (cases v)
  case (VInt i)
  show ?thesis
  proof (cases "i < 0")
    case True
    then have "py_str_int i = CHR ''-'' # digits_of (nat (- i))"
      unfolding py_str_int_def by (rule if_P)
    then show ?thesis by (simp add: VInt opens_value_def is_ws_def)
  next
    case False
    then have "py_str_int i = digits_of (nat i)"
      unfolding py_str_int_def by (rule if_not_P)
    then show ?thesis using digits_of_opens [of "nat i" "[]"] by (simp add: VInt)
  qed
qed (simp_all add: opens_value_def is_ws_def encode_str_def)

lemma enc_items_opens: "xs \<noteq> [] \<Longrightarrow> opens_value (enc_items lvl xs)"
  by (cases xs) (simp_all add: enc_opens opens_value_append)

lemma skip_ws_opens: "opens_value s \<Longrightarrow> skip_ws s = s"
  by (cases s) (auto simp: opens_value_def skip_ws_def)

lemma parse_value_list_ok:
  assumes "opens_value s" and "parse_array n s = Returns (xs, rest)"
  shows "parse_value (Suc n) (CHR ''['' # newline_indent j @ s) = Returns (VList xs, rest)"
proof -
  from assms(1) obtain d ds where s: "s = d # ds" and d: "d \<noteq> CHR '']''"
    by (cases s) (auto simp: opens_value_def)
  have "skip_ws (newline_indent j @ s) = s"
    by (simp add: skip_ws_newline_indent skip_ws_opens [OF assms(1)])
  then have "skip_ws (newline_indent j @ d # ds) = d # ds" unfolding s .
  with d assms(2) show ?thesis unfolding s by simp
qed

lemma parse_value_dict_ok:
  assumes "opens_value s" and "parse_object n s = Returns (kvs, rest)"
  shows "parse_value (Suc n) (CHR ''{'' # newline_indent j @ s) =
           Returns (VDict (py_dict kvs), rest)"
proof -
  from assms(1) obtain d ds where s: "s = d # ds" and d: "d \<noteq> CHR ''}''"
    by (cases s) (auto simp: opens_value_def)
  have "skip_ws (newline_indent j @ s) = s"
    by (simp add: skip_ws_newline_indent skip_ws_opens [OF assms(1)])
  then have "skip_ws (newline_indent j @ d # ds) = d # ds" unfolding s .
  with d assms(2) show ?thesis unfolding s by simp
qed

lemma parse_array_last:
  assumes "parse_value n s = Returns (x, newline_indent k @ CHR '']'' # rest)"
  shows "parse_array (Suc n) s = Returns ([x], rest)"
proof -
  have "skip_ws (newline_indent k @ CHR '']'' # rest) = CHR '']'' # rest"
    by (simp add: skip_ws_newline_indent skip_ws_Cons is_ws_def)
  with assms show ?thesis by simp
qed

lemma parse_array_more:
  assumes "parse_value n s = Returns (x, CHR '','' # newline_indent k @ t)"
    and "opens_value t" and "parse_array n t = Returns (xs, rest)"
  shows "parse_array (Suc n) s = Returns (x # xs, rest)"
proof -
  have "skip_ws (CHR '','' # newline_indent k @ t) = CHR '','' # newline_indent k @ t"
    by (simp add: skip_ws_Cons is_ws_def)
  moreover have "skip_ws (newline_indent k @ t) = t"
    by (simp add: skip_ws_newline_indent skip_ws_opens [OF assms(2)])
  ultimately show ?thesis using assms(1,3) by simp
qed

lemma parse_object_scan:
  "scanstring (tl (encode_str key @ CHR '':'' # CHR '' '' # s)) = Returns (key, CHR '':'' # CHR '' '' # s)"
  by (simp add: encode_str_def scanstring_escaped)

lemma encode_str_Cons: "encode_str key @ s = DQ # tl (encode_str key @ s)"
  by (simp add: encode_str_def)

lemma skip_colon: "skip_ws (CHR '':'' # CHR '' '' # s) = CHR '':'' # CHR '' '' # s"
  by (simp add: skip_ws_Cons is_ws_def)

lemma skip_space: "opens_value s \<Longrightarrow> skip_ws (CHR '' '' # s) = s"
  using skip_ws_opens [of s] by (simp add: skip_ws_def is_ws_def)

lemma parse_object_last:
  assumes "parse_value n s = Returns (v, newline_indent k @ CHR ''}'' # rest)"
    and "opens_value s"
  shows "parse_object (Suc n) (encode_str key @ CHR '':'' # CHR '' '' # s) =
           Returns ([(key, v)], rest)"
proof -
  have "skip_ws (newline_indent k @ CHR ''}'' # rest) = CHR ''}'' # rest"
    by (simp add: skip_ws_newline_indent skip_ws_Cons is_ws_def)
  with assms(1) show ?thesis
    by (subst encode_str_Cons)
       (simp add: parse_object_scan skip_colon skip_space [OF assms(2)] del: scanstring.simps)
qed

lemma parse_object_more:
  assumes "parse_value n s = Returns (v, CHR '','' # newline_indent k @ t)"
    and "opens_value s" and "opens_value t" and "parse_object n t = Returns (kvs, rest)"
  shows "parse_object (Suc n) (encode_str key @ CHR '':'' # CHR '' '' # s) =
           Returns ((key, v) # kvs, rest)"
proof -
  have "skip_ws (CHR '','' # newline_indent k @ t) = CHR '','' # newline_indent k @ t"
    by (simp add: skip_ws_Cons is_ws_def)
  moreover have "skip_ws (newline_indent k @ t) = t"
    by (simp add: skip_ws_newline_indent skip_ws_opens [OF assms(3)])
  ultimately show ?thesis using assms(1,4)
    by (subst encode_str_Cons)
       (simp add: parse_object_scan skip_colon skip_space [OF assms(2)] del: scanstring.simps)
qed

lemma enc_pairs_opens: "kvs \<noteq> [] \<Longrightarrow> opens_value (enc_pairs lvl kvs)"
  by (cases kvs) (simp_all add: encode_str_def opens_value_def is_ws_def)

lemma delimited_comma: "delimited (CHR '','' # s)"
  by (simp add: delimited_def)

lemma delimited_newline: "delimited (newline_indent k @ s)"
  by (simp add: delimited_def newline_indent_def)

lemma weight_pos: "0 < weight v"
  by (cases v) simp_all

lemma parse_enc:
  "keys_once v \<Longrightarrow> weight v \<le> n \<Longrightarrow> delimited rest \<Longrightarrow>
     parse_value n (enc lvl v @ rest) = Returns (v, rest)"
  "xs \<noteq> [] \<Longrightarrow> \<forall>x\<in>set xs. keys_once x \<Longrightarrow> weight_items xs \<le> n \<Longrightarrow>
     parse_array n (enc_items lvl xs @ newline_indent k @ CHR '']'' # rest) = Returns (xs, rest)"
  "kvs \<noteq> [] \<Longrightarrow> \<forall>kv\<in>set kvs. keys_once (snd kv) \<Longrightarrow> weight_pairs kvs \<le> n \<Longrightarrow>
     parse_object n (enc_pairs lvl kvs @ newline_indent k @ CHR ''}'' # rest) = Returns (kvs, rest)"
proof (induction lvl v and lvl xs and lvl kvs arbitrary: n rest and n k rest and n k rest
       rule: enc_enc_items_enc_pairs.induct)
  case (1 lvl)
  then obtain m where "n = Suc m" by (cases n) auto
  then show ?case by simp
next
  case (2 lvl b)
  then obtain m where "n = Suc m" by (cases n) auto
  then show ?case by simp
next
  case (3 lvl i)
  then obtain m where "n = Suc m" by (cases n) auto
  with 3 show ?case by (simp add: parse_value_int del: parse_value.simps)
next
  case (4 lvl s)
  then obtain m where "n = Suc m" by (cases n) auto
  then show ?case by (simp add: encode_str_def scanstring_escaped)
next
  case (5 lvl xs)
  from "5.prems" obtain m where n: "n = Suc m" by (cases n) auto
  show ?case
  proof (cases "xs = []")
    case True
    then show ?thesis by (simp add: n skip_ws_Cons is_ws_def)
  next
    case False
    from "5.prems" n have w: "weight_items xs \<le> m" and ko: "\<forall>x\<in>set xs. keys_once x" by simp_all
    have "parse_array m (enc_items (Suc lvl) xs @ newline_indent lvl @ CHR '']'' # rest) =
            Returns (xs, rest)"
      using False ko w by (rule "5.IH" [OF False])
    moreover have "opens_value (enc_items (Suc lvl) xs @ newline_indent lvl @ CHR '']'' # rest)"
      using False by (intro opens_value_append enc_items_opens)
    ultimately have "parse_value (Suc m)
        (CHR ''['' # newline_indent (Suc lvl) @ enc_items (Suc lvl) xs @ newline_indent lvl @ CHR '']'' # rest) =
        Returns (VList xs, rest)"
      by (intro parse_value_list_ok)
    with False show ?thesis by (simp add: n del: parse_value.simps)
  qed
next
  case (6 lvl kvs)
  from "6.prems" obtain m where n: "n = Suc m" by (cases n) auto
  show ?case
  proof (cases "kvs = []")
    case True
    then show ?thesis by (simp add: n skip_ws_Cons is_ws_def)
  next
    case False
    from "6.prems" n have w: "weight_pairs kvs \<le> m"
      and ko: "\<forall>kv\<in>set kvs. keys_once (snd kv)" and di: "distinct (map fst kvs)" by simp_all
    have "parse_object m (enc_pairs (Suc lvl) kvs @ newline_indent lvl @ CHR ''}'' # rest) =
            Returns (kvs, rest)"
      using False ko w by (rule "6.IH" [OF False])
    moreover have "opens_value (enc_pairs (Suc lvl) kvs @ newline_indent lvl @ CHR ''}'' # rest)"
      using False by (intro opens_value_append enc_pairs_opens)
    ultimately have "parse_value (Suc m)
        (CHR ''{'' # newline_indent (Suc lvl) @ enc_pairs (Suc lvl) kvs @ newline_indent lvl @ CHR ''}'' # rest) =
        Returns (VDict (py_dict kvs), rest)"
      by (intro parse_value_dict_ok)
    with False di show ?thesis by (simp add: n py_dict_distinct del: parse_value.simps)
  qed
next
  case (7 lvl)
  then show ?case by simp
next
  case (8 lvl x xs)
  from "8.prems" obtain m where n: "n = Suc m" by (cases n) auto
  from "8.prems" n have wx: "weight x \<le> m" and wxs: "weight_items xs \<le> m"
    and kx: "keys_once x" and kxs: "\<forall>x\<in>set xs. keys_once x" by simp_all
  show ?case
  proof (cases "xs = []")
    case True
    have "parse_value m (enc lvl x @ newline_indent k @ CHR '']'' # rest) =
            Returns (x, newline_indent k @ CHR '']'' # rest)"
      using kx wx delimited_newline by (rule "8.IH"(1))
    then have "parse_array (Suc m) (enc lvl x @ newline_indent k @ CHR '']'' # rest) =
                 Returns ([x], rest)"
      by (rule parse_array_last)
    with True show ?thesis by (simp add: n del: parse_array.simps)
  next
    case False
    let ?t = "enc_items lvl xs @ newline_indent k @ CHR '']'' # rest"
    have "parse_value m (enc lvl x @ CHR '','' # newline_indent lvl @ ?t) =
            Returns (x, CHR '','' # newline_indent lvl @ ?t)"
      using kx wx delimited_comma by (rule "8.IH"(1))
    moreover have "opens_value ?t" using False by (intro opens_value_append enc_items_opens)
    moreover have "parse_array m ?t = Returns (xs, rest)"
      using False kxs wxs by (rule "8.IH"(2) [OF False])
    ultimately have "parse_array (Suc m) (enc lvl x @ CHR '','' # newline_indent lvl @ ?t) =
        Returns (x # xs, rest)"
      by (rule parse_array_more)
    with False show ?thesis by (simp add: n del: parse_array.simps)
  qed
next
  case (9 lvl)
  then show ?case by simp
next
  case (10 lvl kv kvs)
  from "10.prems" obtain m where n: "n = Suc m" by (cases n) auto
  from "10.prems" n have wx: "weight (snd kv) \<le> m" and wxs: "weight_pairs kvs \<le> m"
    and kx: "keys_once (snd kv)" and kxs: "\<forall>kv\<in>set kvs. keys_once (snd kv)" by simp_all
  show ?case
  proof (cases "kvs = []")
    case True
    let ?s = "enc lvl (snd kv) @ newline_indent k @ CHR ''}'' # rest"
    have "parse_value m ?s = Returns (snd kv, newline_indent k @ CHR ''}'' # rest)"
      using kx wx delimited_newline by (rule "10.IH"(1))
    moreover have "opens_value ?s" by (intro opens_value_append enc_opens)
    ultimately have "parse_object (Suc m) (encode_str (fst kv) @ CHR '':'' # CHR '' '' # ?s) =
        Returns ([(fst kv, snd kv)], rest)"
      by (rule parse_object_last)
    with True show ?thesis by (simp add: n del: parse_object.simps)
  next
    case False
    let ?t = "enc_pairs lvl kvs @ newline_indent k @ CHR ''}'' # rest"
    let ?s = "enc lvl (snd kv) @ CHR '','' # newline_indent lvl @ ?t"
    have "parse_value m ?s = Returns (snd kv, CHR '','' # newline_indent lvl @ ?t)"
      using kx wx delimited_comma by (rule "10.IH"(1))
    moreover have "opens_value ?s" by (intro opens_value_append enc_opens)
    moreover have "opens_value ?t" using False by (intro opens_value_append enc_pairs_opens)
    moreover have "parse_object m ?t = Returns (kvs, rest)"
      using False kxs wxs by (rule "10.IH"(2) [OF False])
    ultimately have "parse_object (Suc m) (encode_str (fst kv) @ CHR '':'' # CHR '' '' # ?s) =
        Returns ((fst kv, snd kv) # kvs, rest)"
      by (rule parse_object_more)
    with False show ?thesis by (simp add: n del: parse_object.simps)
  qed
qed

lemma length_newline_indent: "0 < length (newline_indent k)"
  by (simp add: newline_indent_def)

lemma py_str_int_nonempty: "0 < length (py_str_int i)"
proof -
  have "py_str_int i \<noteq> []" using digits_of_nonempty by (simp add: py_str_int_def)
  then show ?thesis by simp
qed

lemma weight_le_length:
  "weight v \<le> length (enc lvl v)"
  "weight_items xs \<le> length (enc_items lvl xs) + 1"
  "weight_pairs kvs \<le> length (enc_pairs lvl kvs) + 1"
proof (induction lvl v and lvl xs and lvl kvs rule: enc_enc_items_enc_pairs.induct)
  case (3 lvl i)
  show ?case using py_str_int_nonempty [of i] by (simp add: Suc_le_eq)
next
  case (4 lvl s)
  show ?case by (simp add: encode_str_def)
next
  case (5 lvl xs)
  then show ?case
    using length_newline_indent [of lvl] length_newline_indent [of "Suc lvl"]
    by (cases "xs = []") auto
next
  case (6 lvl kvs)
  then show ?case
    using length_newline_indent [of lvl] length_newline_indent [of "Suc lvl"]
    by (cases "kvs = []") auto
next
  case (8 lvl x xs)
  then show ?case
    using length_newline_indent [of lvl] by (cases "xs = []") auto
next
  case (10 lvl kv kvs)
  then show ?case
    using length_newline_indent [of lvl] by (cases "kvs = []") auto
qed simp_all

lemma json_loads_dumps:
  assumes "keys_once v"
  shows "json_loads (json_dumps v) = Returns v"
proof -
  let ?t = "enc 0 v"
  have sk: "skip_ws ?t = ?t" by (rule skip_ws_opens) (rule enc_opens)
  have "weight v \<le> 2 * length ?t + 2" using weight_le_length(1) [of v 0] by simp
  with assms have "parse_value (2 * length ?t + 2) (?t @ []) = Returns (v, [])"
    by (intro parse_enc(1)) (simp_all add: delimited_def)
  then have p: "parse_value (2 * length ?t + 2) ?t = Returns (v, [])"
    by (simp only: append_Nil2)
  show ?thesis
    unfolding json_loads_def json_dumps_def Let_def sk p by (simp add: skip_ws_def)
qed

lemma bind_Returns: "bind m f = Returns y \<longleftrightarrow> (\<exists>x. m = Returns x \<and> f x = Returns y)"
  by (cases m) auto

lemma dict_set_keys: "k' \<in> fst ` set (dict_set d k v) \<longleftrightarrow> k' = k \<or> k' \<in> fst ` set d"
  by (induction d) force+

lemma dict_set_distinct: "distinct (map fst d) \<Longrightarrow> distinct (map fst (dict_set d k v))"
proof (induction d)
  case Nil
  then show ?case by simp
next
  case (Cons a d)
  then show ?case using dict_set_keys [of "fst a" d k v] by (cases a) auto
qed

lemma dict_set_values: "kv \<in> set (dict_set d k v) \<Longrightarrow> snd kv = v \<or> kv \<in> set d"
  by (induction d) (auto split: if_splits)

lemma foldl_dict_set_keys_once:
  assumes "distinct (map fst d)" and "\<forall>kv\<in>set d. keys_once (snd kv)"
    and "\<forall>kv\<in>set kvs. keys_once (snd kv)"
  shows "keys_once (VDict (foldl (\<lambda>d kv. dict_set d (fst kv) (snd kv)) d kvs))"
  using assms
proof (induction kvs arbitrary: d)
  case Nil
  then show ?case by simp
next
  case (Cons a kvs)
  have "distinct (map fst (dict_set d (fst a) (snd a)))"
    using Cons.prems(1) by (rule dict_set_distinct)
  moreover have "\<forall>kv\<in>set (dict_set d (fst a) (snd a)). keys_once (snd kv)"
    using Cons.prems(2,3) by (auto dest!: dict_set_values)
  moreover have "\<forall>kv\<in>set kvs. keys_once (snd kv)" using Cons.prems(3) by simp
  ultimately show ?case using Cons.IH by simp
qed

lemma py_dict_keys_once:
  "\<forall>kv\<in>set kvs. keys_once (snd kv) \<Longrightarrow> keys_once (VDict (py_dict kvs))"
  unfolding py_dict_def by (rule foldl_dict_set_keys_once) simp_all

lemma match_number_keys_once: "match_number s = Returns (v, r) \<Longrightarrow> keys_once v"
  by (auto simp: match_number_def Let_def split: list.splits if_splits)

lemma parse_keys_once:
  "(\<forall>s v r. parse_value n s = Returns (v, r) \<longrightarrow> keys_once v)
   \<and> (\<forall>s vs r. parse_array n s = Returns (vs, r) \<longrightarrow> (\<forall>x\<in>set vs. keys_once x))
   \<and> (\<forall>s kvs r. parse_object n s = Returns (kvs, r) \<longrightarrow> (\<forall>kv\<in>set kvs. keys_once (snd kv)))"
proof (induction n)
  case 0
  show ?case by simp
next
  case (Suc n)
  then have IHv: "\<And>s v r. parse_value n s = Returns (v, r) \<Longrightarrow> keys_once v"
    and IHa: "\<And>s vs r. parse_array n s = Returns (vs, r) \<Longrightarrow> \<forall>x\<in>set vs. keys_once x"
    and IHo: "\<And>s kvs r. parse_object n s = Returns (kvs, r) \<Longrightarrow> \<forall>kv\<in>set kvs. keys_once (snd kv)"
    by blast+
  have v: "keys_once v" if "parse_value (Suc n) s = Returns (v, r)" for s v r
  proof (cases s)
    case Nil
    with that show ?thesis by simp
  next
    case (Cons c cs)
    consider (str) "c = DQ" | (obj) "c \<noteq> DQ" "c = CHR ''{''"
      | (arr) "c \<noteq> DQ" "c \<noteq> CHR ''{''" "c = CHR ''[''"
      | (atom) "c \<noteq> DQ" "c \<noteq> CHR ''{''" "c \<noteq> CHR ''[''"
      by blast
    then show ?thesis
    proof cases
      case str
      with that Cons show ?thesis by (auto simp: bind_Returns)
    next
      case obj
      with that Cons have "v = VDict [] \<or>
          (\<exists>s' kvs r'. parse_object n s' = Returns (kvs, r') \<and> v = VDict (py_dict kvs))"
        by (auto simp: bind_Returns split: list.splits if_splits)
      then show ?thesis
      proof
        assume "v = VDict []"
        then show ?thesis by simp
      next
        assume "\<exists>s' kvs r'. parse_object n s' = Returns (kvs, r') \<and> v = VDict (py_dict kvs)"
        then obtain s' kvs r' where "parse_object n s' = Returns (kvs, r')"
          and v: "v = VDict (py_dict kvs)" by blast
        then have "\<forall>kv\<in>set kvs. keys_once (snd kv)" using IHo by blast
        then show ?thesis unfolding v by (rule py_dict_keys_once)
      qed
    next
      case arr
      with that Cons show ?thesis
        using IHa by (auto simp: bind_Returns split: list.splits if_splits)
    next
      case atom
      with that Cons show ?thesis
        using match_number_keys_once [of s v r] by (auto split: if_splits)
    qed
  qed
  have a: "\<forall>x\<in>set vs. keys_once x" if "parse_array (Suc n) s = Returns (vs, r)" for s vs r
  proof -
    from that obtain p where pv: "parse_value n s = Returns p"
      and k: "(case skip_ws (snd p) of
                 [] \<Rightarrow> Raises JSONDecodeError
               | d # ds \<Rightarrow>
                   if d = CHR '']'' then Returns ([fst p], ds)
                   else if d = CHR '','' then
                     bind (parse_array n (skip_ws ds)) (\<lambda>q. Returns (fst p # fst q, snd q))
                   else Raises JSONDecodeError) = Returns (vs, r)"
      by (auto simp: bind_Returns)
    from pv have x: "keys_once (fst p)" using IHv [of s "fst p" "snd p"] by simp
    show ?thesis
    proof (cases "skip_ws (snd p)")
      case Nil
      with k show ?thesis by simp
    next
      case (Cons d ds)
      show ?thesis
      proof (cases "d = CHR '']''")
        case True
        with k Cons x show ?thesis by auto
      next
        case False
        with k Cons obtain q where "parse_array n (skip_ws ds) = Returns q"
          and vs: "vs = fst p # fst q"
          by (auto simp: bind_Returns split: if_splits)
        then have "\<forall>x\<in>set (fst q). keys_once x"
          using IHa [of "skip_ws ds" "fst q" "snd q"] by simp
        with x vs show ?thesis by simp
      qed
    qed
  qed
  have o: "\<forall>kv\<in>set kvs. keys_once (snd kv)" if "parse_object (Suc n) s = Returns (kvs, r)" for s kvs r
  proof (cases s)
    case Nil
    with that show ?thesis by simp
  next
    case (Cons c cs)
    with that obtain key where sc: "scanstring cs = Returns key"
      and k1: "(case skip_ws (snd key) of
              [] \<Rightarrow> Raises JSONDecodeError
            | d # ds \<Rightarrow>
                if d \<noteq> CHR '':'' then Raises JSONDecodeError
                else bind (parse_value n (skip_ws ds)) (\<lambda>p.
                  case skip_ws (snd p) of
                    [] \<Rightarrow> Raises JSONDecodeError
                  | e # es \<Rightarrow>
                      if e = CHR ''}'' then Returns ([(fst key, fst p)], es)
                      else if e = CHR '','' then
                        bind (parse_object n (skip_ws es))
                          (\<lambda>q. Returns ((fst key, fst p) # fst q, snd q))
                      else Raises JSONDecodeError)) = Returns (kvs, r)"
      by (auto simp: bind_Returns split: if_splits)
    from k1 obtain d ds where sk: "skip_ws (snd key) = d # ds"
      by (cases "skip_ws (snd key)") auto
    with k1 obtain p where pv: "parse_value n (skip_ws ds) = Returns p"
      and k2: "(case skip_ws (snd p) of
                    [] \<Rightarrow> Raises JSONDecodeError
                  | e # es \<Rightarrow>
                      if e = CHR ''}'' then Returns ([(fst key, fst p)], es)
                      else if e = CHR '','' then
                        bind (parse_object n (skip_ws es))
                          (\<lambda>q. Returns ((fst key, fst p) # fst q, snd q))
                      else Raises JSONDecodeError) = Returns (kvs, r)"
      by (auto simp: bind_Returns split: if_splits)
    from pv have x: "keys_once (fst p)" using IHv [of "skip_ws ds" "fst p" "snd p"] by simp
    show ?thesis
    proof (cases "skip_ws (snd p)")
      case Nil
      with k2 show ?thesis by simp
    next
      case (Cons e es)
      show ?thesis
      proof (cases "e = CHR ''}''")
        case True
        with k2 Cons x show ?thesis by auto
      next
        case False
        with k2 Cons obtain q where "parse_object n (skip_ws es) = Returns q"
          and kvs: "kvs = (fst key, fst p) # fst q"
          by (auto simp: bind_Returns split: if_splits)
        then have "\<forall>kv\<in>set (fst q). keys_once (snd kv)"
          using IHo [of "skip_ws es" "fst q" "snd q"] by simp
        with x kvs show ?thesis by simp
      qed
    qed
  qed
  from v a o show ?case by blast
qed

lemma json_loads_keys_once:
  assumes "json_loads s = Returns v"
  shows "keys_once v"
proof -
  from assms obtain p where "parse_value (2 * length (skip_ws s) + 2) (skip_ws s) = Returns p"
    and "v = fst p"
    unfolding json_loads_def Let_def bind_Returns by (auto split: if_splits)
  then show ?thesis
    using parse_keys_once [of "2 * length (skip_ws s) + 2"]
    by (metis prod.collapse)
qed

lemma map_of_dict_set: "map_of (dict_set d k v) k' = (if k' = k then Some v else map_of d k')"
  by (induction d) auto

lemma keys_once_dict_set:
  assumes "keys_once (VDict d)" and "keys_once v"
  shows "keys_once (VDict (dict_set d k v))"
  using assms by (auto simp: dict_set_distinct dest!: dict_set_values)

lemma keys_once_lookup:
  assumes "keys_once (VDict kvs)" and "map_of kvs k = Some v"
  shows "keys_once v"
proof -
  from assms(2) have "(k, v) \<in> set kvs" by (rule map_of_SomeD)
  with assms(1) show ?thesis by auto
qed

lemma load_after_save:
  assumes "keys_once (config m)"
  shows "load_config (config_path m) (files (save_config m)) = Returns (config m)"
  using assms by (simp add: load_config_def save_config_def json_loads_dumps)

text \<open>
  Claim C7. When the program has started on a configuration file, so that \<^verbatim>\<open>load_config\<close>
  returned a document, saving that document and loading the file again returns the same
  document. Every document that \<^verbatim>\<open>json.load\<close> returns in the model qualifies; the
  Configuration documents of the specification are among them.
\<close>

theorem save_load_idempotent:
  assumes "init path fs = Returns m"
  shows "load_config (config_path (save_config m)) (files (save_config m)) = Returns (config m)"
proof -
  from assms obtain c where c: "load_config path fs = Returns c"
    and m: "m = \<lparr>config_path = path, config = c,
                 compose_file = ''docker-compose.yml'',
                 template_file = ''docker-compose.template.yml'',
                 files = fs\<rparr>"
    by (auto simp: init_def bind_Returns)
  from c have "keys_once c"
    by (auto simp: load_config_def split: option.splits dest: json_loads_keys_once)
  then have "keys_once (config m)" by (simp add: m)
  then have "load_config (config_path m) (files (save_config m)) = Returns (config m)"
    by (rule load_after_save)
  then show ?thesis by (simp add: save_config_def)
qed

lemma json_loads_example: "json_loads example_text = Returns example_loaded"
  by code_simp

theorem save_load_idempotent_witness:
  "init ''config.json'' [''config.json'' \<mapsto> example_text] =
     Returns \<lparr>config_path = ''config.json'', config = example_loaded,
              compose_file = ''docker-compose.yml'',
              template_file = ''docker-compose.template.yml'',
              files = [''config.json'' \<mapsto> example_text]\<rparr>
   \<and> load_config ''config.json''
        (files (save_config \<lparr>config_path = ''config.json'', config = example_loaded,
              compose_file = ''docker-compose.yml'',
              template_file = ''docker-compose.template.yml'',
              files = [''config.json'' \<mapsto> example_text]\<rparr>)) = Returns example_loaded"
proof -
  have i: "init ''config.json'' [''config.json'' \<mapsto> example_text] =
     Returns \<lparr>config_path = ''config.json'', config = example_loaded,
              compose_file = ''docker-compose.yml'',
              template_file = ''docker-compose.template.yml'',
              files = [''config.json'' \<mapsto> example_text]\<rparr>"
    by (simp add: init_def load_config_def json_loads_example)
  from save_load_idempotent [OF i] i show ?thesis by (simp add: save_config_def)
qed

text \<open>
  No key is repeated in a configuration that was loaded, and \<^verbatim>\<open>update_default\<close> keeps
  it so; it also keeps the shape of the configuration.
\<close>

lemma init_keys_once:
  assumes "init path fs = Returns m"
  shows "keys_once (config m)"
proof -
  from assms obtain c where "load_config path fs = Returns c" and "config m = c"
    by (auto simp: init_def bind_Returns)
  then show ?thesis
    by (auto simp: load_config_def split: option.splits dest: json_loads_keys_once)
qed

lemma update_default_keys_once:
  assumes "keys_once (config m)" and "keys_once version"
  shows "keys_once (config (snd (update_default m component version)))"
proof (cases "config m")
  case (VDict kvs)
  define kvs' where "kvs' = (if map_of kvs ''defaults'' = None
                             then dict_set kvs ''defaults'' (VDict []) else kvs)"
  have k': "keys_once (VDict kvs')"
    using assms(1) VDict keys_once_dict_set [of kvs "VDict []" "''defaults''"]
    by (simp add: kvs'_def)
  show ?thesis
  proof (cases "\<exists>d. map_of kvs' ''defaults'' = Some (VDict d)")
    case True
    then obtain d where d: "map_of kvs' ''defaults'' = Some (VDict d)" by blast
    have "keys_once (VDict d)" using k' d by (rule keys_once_lookup)
    then have "keys_once (VDict (dict_set d (component @ ''_version'') version))"
      using assms(2) by (rule keys_once_dict_set)
    with k' have "keys_once (VDict (dict_set kvs' ''defaults''
                    (VDict (dict_set d (component @ ''_version'') version))))"
      by (rule keys_once_dict_set)
    then show ?thesis
      using VDict d
      by (simp add: update_default_def Let_def kvs'_def [symmetric] save_config_def)
  next
    case False
    then have "snd (update_default m component version) = m"
      using VDict
      by (auto simp: update_default_def Let_def kvs'_def [symmetric]
            split: option.splits pyval.splits)
    with assms(1) show ?thesis by simp
  qed
qed (use assms(1) in \<open>simp_all add: update_default_def\<close>)

lemma update_default_has_defaults_mapping:
  assumes "has_defaults_mapping (config m)"
  shows "has_defaults_mapping (config (snd (update_default m component version)))"
proof -
  from assms obtain kvs where cfg: "config m = VDict kvs" by (cases "config m") auto
  with assms show ?thesis
    by (auto simp: update_default_def Let_def save_config_def map_of_dict_set
          split: option.splits pyval.splits)
qed

text \<open>
  Claim C4. For a configuration of the documented shape, \<^verbatim>\<open>update_default\<close> with a
  component and a version text returns normally; afterwards \<^verbatim>\<open>get_defaults\<close> yields a
  dictionary that maps \<open>component_version\<close> to the version, and loading the configuration
  file returns the configuration that is now in memory, so the same defaults.
\<close>

theorem update_default_persists:
  assumes "has_defaults_mapping (config m)" and "keys_once (config m)"
  shows "fst (update_default m component (VStr version)) = Returns ()
       \<and> (\<exists>d. get_defaults (snd (update_default m component (VStr version))) = Returns (VDict d)
              \<and> map_of d (component @ ''_version'') = Some (VStr version))
       \<and> load_config (config_path m) (files (snd (update_default m component (VStr version)))) =
           Returns (config (snd (update_default m component (VStr version))))"
proof -
  from assms(1) obtain kvs where cfg: "config m = VDict kvs" by (cases "config m") auto
  define kvs' where "kvs' = (if map_of kvs ''defaults'' = None
                             then dict_set kvs ''defaults'' (VDict []) else kvs)"
  from assms(1) cfg obtain d where d: "map_of kvs' ''defaults'' = Some (VDict d)"
    by (auto simp: kvs'_def map_of_dict_set split: option.splits pyval.splits)
  have k': "keys_once (VDict kvs')"
    using assms(2) cfg keys_once_dict_set [of kvs "VDict []" "''defaults''"]
    by (simp add: kvs'_def)
  define c' where "c' = VDict (dict_set kvs' ''defaults''
                          (VDict (dict_set d (component @ ''_version'') (VStr version))))"
  have upd: "update_default m component (VStr version) = (Returns (), save_config (m\<lparr>config := c'\<rparr>))"
    using cfg d by (simp add: update_default_def Let_def kvs'_def [symmetric] c'_def)
  have kd: "keys_once (VDict d)" using k' d by (rule keys_once_lookup)
  have "keys_once (VDict (dict_set d (component @ ''_version'') (VStr version)))"
    using kd by (rule keys_once_dict_set) simp
  with k' have kc: "keys_once c'" unfolding c'_def by (rule keys_once_dict_set)
  have "get_defaults (save_config (m\<lparr>config := c'\<rparr>)) =
          Returns (VDict (dict_set d (component @ ''_version'') (VStr version)))"
    by (simp add: get_defaults_def save_config_def c'_def py_get_def map_of_dict_set)
  moreover have "map_of (dict_set d (component @ ''_version'') (VStr version))
                   (component @ ''_version'') = Some (VStr version)"
    by (simp add: map_of_dict_set)
  moreover have "load_config (config_path m) (files (save_config (m\<lparr>config := c'\<rparr>))) =
                   Returns (config (save_config (m\<lparr>config := c'\<rparr>)))"
    using load_after_save [of "m\<lparr>config := c'\<rparr>"] kc by (simp add: save_config_def)
  ultimately show ?thesis unfolding upd by auto
qed

theorem update_default_persists_witness:
  "has_defaults_mapping (config example_manager) \<and> keys_once (config example_manager)
   \<and> fst (update_default example_manager ''qemu'' (VStr ''4.3.0'')) = Returns ()
   \<and> get_defaults (snd (update_default example_manager ''qemu'' (VStr ''4.3.0''))) =
       Returns (VDict [(''gns3_server_version'', VStr ''2.2.40''), (''qemu_version'', VStr ''4.3.0'')])
   \<and> load_config (config_path example_manager)
        (files (snd (update_default example_manager ''qemu'' (VStr ''4.3.0'')))) =
       Returns (config (snd (update_default example_manager ''qemu'' (VStr ''4.3.0''))))"
proof -
  have h: "has_defaults_mapping (config example_manager)"
    by (simp add: example_manager_def example_config_def)
  have k: "keys_once (config example_manager)"
    by (simp add: example_manager_def example_config_def)
  have g: "get_defaults (snd (update_default example_manager ''qemu'' (VStr ''4.3.0''))) =
       Returns (VDict [(''gns3_server_version'', VStr ''2.2.40''), (''qemu_version'', VStr ''4.3.0'')])"
    by (simp add: update_default_def example_manager_def example_config_def get_defaults_def
          save_config_def py_get_def)
  from update_default_persists [OF h k, of "''qemu''" "''4.3.0''"] h k g show ?thesis by blast
qed

end
